theory Spec2Isabelle
  imports Complex_Main "HOL-Library.Log_Nat"
begin

unbundle bit_operations_syntax

section \<open>Fixed-width unsigned arithmetic\<close>

text \<open>
  The program computes on \<open>uint32\<close> and \<open>uint64\<close> values. They are modelled as natural
  numbers with the wrap-around written out: every operation that can leave the range
  reduces its result modulo \<open>2 ^ 32\<close> or \<open>2 ^ 64\<close>.
\<close>

definition u32 :: "nat \<Rightarrow> nat" where
  "u32 v = v mod 2 ^ 32"

definition u64 :: "nat \<Rightarrow> nat" where
  "u64 v = v mod 2 ^ 64"

definition sub_u32 :: "nat \<Rightarrow> nat \<Rightarrow> nat" where
  "sub_u32 a b = (a + 2 ^ 32 - b) mod 2 ^ 32"

definition sub_u64 :: "nat \<Rightarrow> nat \<Rightarrow> nat" where
  "sub_u64 a b = (a + 2 ^ 64 - b) mod 2 ^ 64"

text \<open>Conversion of a \<open>uint32\<close> to \<open>int\<close> (two's complement) and of an \<open>int\<close> to \<open>uint64\<close>.\<close>

definition to_int32 :: "nat \<Rightarrow> int" where
  "to_int32 v = (if v < 2 ^ 31 then int v else int v - 2 ^ 32)"

definition int_to_u64 :: "int \<Rightarrow> nat" where
  "int_to_u64 i = nat (i mod 2 ^ 64)"

text \<open>
  \<open>log2\<close> is applied to integers only and its result is truncated or rounded up to an
  integer at once. It is modelled by the exact logarithm: \<open>log2_floor n\<close> is
  \<open>\<lfloor>log 2 n\<rfloor>\<close> and \<^const>\<open>ceillog2\<close> is \<open>\<lceil>log 2 n\<rceil>\<close>, for \<open>n > 0\<close>.
\<close>

definition log2_floor :: "nat \<Rightarrow> nat" where
  "log2_floor n = floorlog 2 n - 1"

section \<open>Outcomes\<close>

text \<open>
  A call either returns a value, throws (\<open>std::invalid_argument\<close>, \<open>std::domain_error\<close>),
  executes an operation the language leaves undefined (a shift by at least the width of
  its operand, a division by zero), or does not return. The first three are values of
  \<open>error + 'a\<close>; a function containing a loop that may run forever returns an option of
  that, \<open>None\<close> meaning that the call does not return.
\<close>

datatype error = InvalidArgument | DomainError | Undefined

record PrimeDecomposition =
  exponent_p :: int
  coefficient_k :: int
  shift_q :: int
  modulus_R :: nat
  is_valid :: bool

section \<open>DecomposePrime\<close>

definition IsPowerOfTwo :: "nat \<Rightarrow> bool" where
  "IsPowerOfTwo num \<longleftrightarrow> num \<noteq> 0 \<and> num AND (sub_u32 num 1) = 0"

text \<open>\<open>1U << n\<close> for an \<open>int\<close> shift count.\<close>

definition shl1_u32 :: "int \<Rightarrow> error + nat" where
  "shl1_u32 n = (if 0 \<le> n \<and> n < 32 then Inr (2 ^ nat n) else Inl Undefined)"

text \<open>The loop \<open>while ((s & 1) == 0) { ++q; s >>= 1; }\<close>.\<close>

partial_function (option) strip_twos :: "int \<Rightarrow> nat \<Rightarrow> (int \<times> nat) option" where
  "strip_twos q s = (if s AND 1 = 0 then strip_twos (q + 1) (s div 2) else Some (q, s))"

declare strip_twos.simps [code]

definition DecomposePrime :: "nat \<Rightarrow> (error + PrimeDecomposition) option" where
  "DecomposePrime x =
    (if x = 2 then
       Some (Inr \<lparr>exponent_p = 1, coefficient_k = 1, shift_q = 0, modulus_R = 2, is_valid = True\<rparr>)
     else
       let temp = sub_u32 x 1 in
       if IsPowerOfTwo temp then
         (let m = int (log2_floor temp) in
          case shl1_u32 (m + 1) of
            Inl e \<Rightarrow> Some (Inl e)
          | Inr R \<Rightarrow>
              Some (Inr \<lparr>exponent_p = m, coefficient_k = 0, shift_q = 1, modulus_R = R,
                         is_valid = True\<rparr>))
       else
         (case strip_twos 0 temp of
            None \<Rightarrow> None
          | Some (q, s) \<Rightarrow>
              (case shl1_u32 (int (ceillog2 s)) of
                 Inl e \<Rightarrow> Some (Inl e)
               | Inr t \<Rightarrow>
                   (let p = q + int (log2_floor t) in
                    case shl1_u32 p of
                      Inl e \<Rightarrow> Some (Inl e)
                    | Inr R \<Rightarrow>
                        Some (Inr \<lparr>exponent_p = p, coefficient_k = to_int32 (sub_u32 t s),
                                   shift_q = q, modulus_R = R, is_valid = True\<rparr>)))))"

section \<open>GeneralizedMersenneReduce\<close>

text \<open>
  One pass through the body of the coarse-reduction loop. The shift counts are \<open>int\<close>s
  taken from the decomposition; a count outside the width of the shifted operand is
  undefined.
\<close>

definition gm_step :: "PrimeDecomposition \<Rightarrow> nat \<Rightarrow> nat \<Rightarrow> error + nat" where
  "gm_step params Q residual =
    (let shift1 = exponent_p params;
         shift2 = 2 * exponent_p params - shift_q params
     in
     if \<not> (0 \<le> shift1 \<and> shift1 < 32 \<and> 0 \<le> shift2 \<and> shift2 < 64
            \<and> 0 \<le> shift_q params \<and> shift_q params < 32)
     then Inl Undefined
     else
       let Cres =
             (if Q > 2 ^ nat (exponent_p params) then
                sub_u64 (residual div 2 ^ nat shift1) (residual div 2 ^ nat shift2)
              else
                u64 (residual div 2 ^ nat shift1
                     + u64 (int_to_u64 (coefficient_k params) * (residual div 2 ^ nat shift2))));
           step1 = Cres;
           step2 = u64 (u64 (step1 * (Q div 2 ^ nat (shift_q params))) * 2 ^ nat (shift_q params))
       in Inr (sub_u64 residual (u64 (step2 + step1))))"

partial_function (option) gm_loop ::
    "PrimeDecomposition \<Rightarrow> nat \<Rightarrow> nat \<Rightarrow> (error + nat) option" where
  "gm_loop params Q residual =
    (if residual > u32 (2 * Q) then
       (case gm_step params Q residual of
          Inl e \<Rightarrow> Some (Inl e)
        | Inr residual' \<Rightarrow> gm_loop params Q residual')
     else Some (Inr residual))"

declare gm_loop.simps [code]

definition GeneralizedMersenneReduce :: "nat \<Rightarrow> nat \<Rightarrow> nat \<Rightarrow> (error + nat) option" where
  "GeneralizedMersenneReduce a b Q =
    (case DecomposePrime Q of
       None \<Rightarrow> None
     | Some (Inl e) \<Rightarrow> Some (Inl e)
     | Some (Inr params) \<Rightarrow>
         if \<not> is_valid params then Some (Inl InvalidArgument)
         else
           (case gm_loop params Q (u64 (a * b)) of
              None \<Rightarrow> None
            | Some (Inl e) \<Rightarrow> Some (Inl e)
            | Some (Inr residual) \<Rightarrow>
                Some (Inr (u32 (if residual \<ge> Q then sub_u64 residual Q else residual)))))"

section \<open>MontgomeryMultiply\<close>

definition MontgomeryReduce :: "nat \<Rightarrow> nat \<Rightarrow> nat \<Rightarrow> nat \<Rightarrow> error + nat" where
  "MontgomeryReduce res_m q inv_q R_shift =
    (if \<not> R_shift < 32 then Inl Undefined
     else
       let R = 2 ^ R_shift;
           m = u32 (u32 res_m * inv_q) mod R;
           y = u64 (res_m + u64 (m * q)) div 2 ^ R_shift
       in Inr (u32 (if y \<ge> q then sub_u64 y q else u32 y)))"

text \<open>
  The search \<open>for (uint32 i = 1; i < R; ++i)\<close>, started at \<open>i\<close>. The counter stays below
  \<open>R\<close>, so \<open>++i\<close> does not wrap.
\<close>

function inverse_scan :: "nat \<Rightarrow> nat \<Rightarrow> nat \<Rightarrow> error + nat" where
  "inverse_scan q R i =
    (if i < R then
       if u64 (i * q) mod R = sub_u32 R 1 then Inr i else inverse_scan q R (i + 1)
     else Inl DomainError)"
  by pat_completeness auto
termination
  by (relation "measure (\<lambda>(q, R, i). R - i)") auto

definition CalculateMontgomeryInverse :: "nat \<Rightarrow> nat \<Rightarrow> error + nat" where
  "CalculateMontgomeryInverse q R = inverse_scan q R 1"

definition MontgomeryMultiply :: "nat \<Rightarrow> nat \<Rightarrow> nat \<Rightarrow> (error + nat) option" where
  "MontgomeryMultiply a b q =
    (case DecomposePrime q of
       None \<Rightarrow> None
     | Some (Inl e) \<Rightarrow> Some (Inl e)
     | Some (Inr params) \<Rightarrow>
         if \<not> is_valid params \<or> modulus_R params = 0 then Some (Inl InvalidArgument)
         else
           (let R = modulus_R params;
                R_shift = nat (exponent_p params mod 2 ^ 32)
            in
            case CalculateMontgomeryInverse q R of
              Inl e \<Rightarrow> Some (Inl e)
            | Inr inv_q \<Rightarrow>
                if q = 0 then Some (Inl Undefined)
                else
                  (let a_m = u32 (u64 (a * R) mod q);
                       b_m = u32 (u64 (b * R) mod q);
                       product = u64 (a_m * b_m)
                   in
                   case MontgomeryReduce product q inv_q R_shift of
                     Inl e \<Rightarrow> Some (Inl e)
                   | Inr res \<Rightarrow>
                       (case MontgomeryReduce res q inv_q R_shift of
                          Inl e \<Rightarrow> Some (Inl e)
                        | Inr res' \<Rightarrow> Some (Inr (res' mod q))))))"

section \<open>BarrettReduce\<close>

text \<open>The loop \<open>while (result >= q) result -= q;\<close>.\<close>

partial_function (option) barrett_adjust :: "nat \<Rightarrow> nat \<Rightarrow> nat option" where
  "barrett_adjust q result =
    (if result \<ge> q then barrett_adjust q (sub_u64 result q) else Some result)"

declare barrett_adjust.simps [code]

definition BarrettReduce :: "nat \<Rightarrow> nat \<Rightarrow> nat \<Rightarrow> nat \<Rightarrow> (error + nat) option" where
  "BarrettReduce a b q param_p =
    (let product = u64 (a * b) in
     if q = 0 \<or> \<not> 2 * (log2_floor q + 1) < 64 then Some (Inl Undefined)
     else
       let quotient = u64 (product * param_p) div 2 ^ (2 * (log2_floor q + 1));
           result = sub_u64 product (u64 (quotient * q))
       in
       case barrett_adjust q result of
         None \<Rightarrow> None
       | Some result' \<Rightarrow> Some (Inr (u32 result')))"

definition CalculateBarrettParameter :: "nat \<Rightarrow> nat \<Rightarrow> error + nat" where
  "CalculateBarrettParameter q R = (if q = 0 then Inl Undefined else Inr (u32 (R * R) div q))"

text \<open>The moduli named by the program's test driver.\<close>

definition supported_moduli :: "nat list" where
  "supported_moduli = [3329, 7681, 12289, 65537, 8380417, 8404993, 1073479681]"

text \<open>
  The decomposition that \<open>DecomposePrime\<close> returns for the Fermat prime \<open>65537\<close>.
\<close>

definition fermat_params :: PrimeDecomposition where
  "fermat_params = \<lparr>exponent_p = 16, coefficient_k = 0, shift_q = 1, modulus_R = 131072,
     is_valid = True\<rparr>"

section \<open>Auxiliary definitions\<close>

text \<open>
  Modular exponentiation by repeated squaring. It is not part of the program: it
  evaluates the certificates that the supported moduli are prime.
\<close>

fun modpow :: "nat \<Rightarrow> nat \<Rightarrow> nat \<Rightarrow> nat" where
  "modpow a e N =
    (if e = 0 then 1 mod N
     else if even e then (modpow a (e div 2) N)\<^sup>2 mod N
     else (a * modpow a (e - 1) N) mod N)"

section \<open>Arithmetic of the fixed-width operations\<close>

lemma sub_u32_eq: "b \<le> a \<Longrightarrow> a < 2 ^ 32 \<Longrightarrow> sub_u32 a b = a - b"
proof -
  assume h: "b \<le> a" "a < 2 ^ 32"
  then have "a + 2 ^ 32 - b = (a - b) + 2 ^ 32" by simp
  then have "(a + 2 ^ 32 - b) mod 2 ^ 32 = (a - b) mod 2 ^ 32" by (simp only: mod_add_self2)
  also have "\<dots> = a - b" using h by simp
  finally show ?thesis by (simp only: sub_u32_def)
qed

lemma sub_u64_eq: "b \<le> a \<Longrightarrow> a < 2 ^ 64 \<Longrightarrow> sub_u64 a b = a - b"
proof -
  assume h: "b \<le> a" "a < 2 ^ 64"
  then have "a + 2 ^ 64 - b = (a - b) + 2 ^ 64" by simp
  then have "(a + 2 ^ 64 - b) mod 2 ^ 64 = (a - b) mod 2 ^ 64" by (simp only: mod_add_self2)
  also have "\<dots> = a - b" using h by simp
  finally show ?thesis by (simp only: sub_u64_def)
qed

lemma strip_twos_odd: "odd s \<Longrightarrow> strip_twos q s = Some (q, s)"
  by (subst strip_twos.simps) (simp add: and_one_eq mod_2_eq_odd)

lemma strip_twos_even: "even s \<Longrightarrow> strip_twos q s = strip_twos (q + 1) (s div 2)"
  by (subst strip_twos.simps) (simp add: and_one_eq mod_2_eq_odd)

lemma strip_twos_Some_nonzero:
  assumes "strip_twos q s = Some r"
  shows "s \<noteq> 0"
proof (rule strip_twos.raw_induct [where P = "\<lambda>q s r. s \<noteq> 0", OF _ assms])
  fix f :: "int \<Rightarrow> nat \<Rightarrow> (int \<times> nat) option" and q s r
  assume IH: "\<And>q s r. f q s = Some r \<Longrightarrow> s \<noteq> 0"
    and eq: "(if s AND 1 = 0 then f (q + 1) (s div 2) else Some (q, s)) = Some r"
  show "s \<noteq> 0"
  proof (cases "even s")
    case True
    with eq have "f (q + 1) (s div 2) = Some r"
      by (simp add: and_one_eq mod_2_eq_odd)
    then have "s div 2 \<noteq> 0" by (rule IH)
    then show ?thesis by auto
  next
    case False
    then show ?thesis by (cases "s = 0") simp_all
  qed
qed

lemma strip_twos_zero: "strip_twos q 0 = None"
  using strip_twos_Some_nonzero [of q 0] by (cases "strip_twos q 0") auto

lemma strip_twos_shift: "odd s \<Longrightarrow> strip_twos q (s * 2 ^ n) = Some (q + int n, s)"
proof (induction n arbitrary: q)
  case 0
  then show ?case by (simp add: strip_twos_odd)
next
  case (Suc n)
  have "strip_twos q (s * 2 ^ Suc n) = strip_twos (q + 1) (s * 2 ^ n)"
    by (subst strip_twos_even) simp_all
  with Suc show ?case by simp
qed

lemma factor_twos: "0 < (n::nat) \<Longrightarrow> \<exists>s k. odd s \<and> n = s * 2 ^ k"
proof (induction n rule: less_induct)
  case (less n)
  show ?case
  proof (cases "even n")
    case True
    then obtain m where m: "n = 2 * m" by (auto elim: evenE)
    with less.prems have "0 < m" "m < n" by simp_all
    from less.IH [OF this(2) this(1)] obtain s k where "odd s" "m = s * 2 ^ k" by blast
    then have "odd s \<and> n = s * 2 ^ Suc k" using m by simp
    then show ?thesis by blast
  next
    case False
    then have "odd n \<and> n = n * 2 ^ 0" by simp
    then show ?thesis by blast
  qed
qed

lemma strip_twos_Some: "strip_twos q s = Some (q', s') \<Longrightarrow> odd s' \<and> q \<le> q' \<and> s = s' * 2 ^ nat (q' - q)"
proof (cases "s = 0")
  case True
  assume "strip_twos q s = Some (q', s')"
  with True show ?thesis by (simp add: strip_twos_zero)
next
  case False
  assume a: "strip_twos q s = Some (q', s')"
  from False obtain t k where tk: "odd t" "s = t * 2 ^ k" using factor_twos [of s] by auto
  with a have "q' = q + int k" "s' = t" by (simp_all add: strip_twos_shift)
  with tk show ?thesis by simp
qed

lemma and_pred_zero_pow2:
  "0 < (n::nat) \<Longrightarrow> n AND (n - 1) = 0 \<Longrightarrow> \<exists>m. n = 2 ^ m"
proof (induction n rule: less_induct)
  case (less n)
  show ?case
  proof (cases "even n")
    case True
    then obtain k where k: "n = 2 * k" by (auto elim: evenE)
    with less.prems have kpos: "0 < k" by simp
    have "(n - 1) div 2 = k - 1" using k kpos by (cases k) simp_all
    moreover have "odd (n - 1)" using k kpos by simp
    ultimately have "n AND (n - 1) = 2 * (k AND (k - 1))"
      using k by (subst and_rec) simp
    with less.prems have "k AND (k - 1) = 0" by simp
    from less.IH [OF _ kpos this] k kpos obtain m where "k = 2 ^ m" by auto
    with k have "n = 2 ^ Suc m" by simp
    then show ?thesis by blast
  next
    case False
    then obtain k where k: "n = 2 * k + 1" by (auto elim: oddE)
    have "n AND (n - 1) = 2 * (k AND k)"
      using k by (subst and_rec) simp
    with less.prems have "k = 0" by simp
    with k have "n = 2 ^ 0" by simp
    then show ?thesis by blast
  qed
qed

lemma IsPowerOfTwo_D: "num < 2 ^ 32 \<Longrightarrow> IsPowerOfTwo num \<Longrightarrow> \<exists>m. num = 2 ^ m"
proof -
  assume lt: "num < 2 ^ 32" and p: "IsPowerOfTwo num"
  then have pos: "0 < num" by (simp add: IsPowerOfTwo_def)
  then have "sub_u32 num 1 = num - 1" using lt by (simp add: sub_u32_eq)
  with p have "num AND (num - 1) = 0" by (simp add: IsPowerOfTwo_def)
  with pos show ?thesis by (rule and_pred_zero_pow2)
qed


lemma log2_floor_power: "log2_floor (2 ^ n) = n"
  using floorlog_power [of 1 2 n] by (simp add: log2_floor_def floorlog_def)

lemma odd_times_power_eq_power:
  "odd (s::nat) \<Longrightarrow> s * 2 ^ q = 2 ^ m \<Longrightarrow> s = 1"
proof (induction q arbitrary: m)
  case 0
  then have "odd ((2::nat) ^ m)" by simp
  then have "m = 0" by (cases m) simp_all
  with 0 show ?case by simp
next
  case (Suc q)
  then have "even ((2::nat) ^ m)" by (metis even_mult_iff even_numeral even_power zero_less_Suc)
  then obtain m' where m: "m = Suc m'" by (cases m) simp_all
  with Suc.prems have "s * 2 ^ q = 2 ^ m'" by simp
  with Suc.IH Suc.prems show ?case by blast
qed

lemma DecomposePrime_general:
  assumes s: "odd s" "3 \<le> s" and c: "s \<le> 2 ^ c" "2 ^ c < 2 * s" and qc: "q + c < 32"
    and x: "x = s * 2 ^ q + 1"
  shows "DecomposePrime x =
    Some (Inr \<lparr>exponent_p = int (q + c), coefficient_k = int (2 ^ c - s), shift_q = int q,
               modulus_R = 2 ^ (q + c), is_valid = True\<rparr>)"
proof -
  have c31: "c \<le> 31" using qc by simp
  have "s * 2 ^ q \<le> 2 ^ c * 2 ^ q" using c by simp
  also have "\<dots> = 2 ^ (q + c)" by (simp add: power_add)
  also have "\<dots> \<le> (2::nat) ^ 31" using qc by (intro power_increasing) simp_all
  finally have le: "s * 2 ^ q \<le> 2 ^ 31" .
  then have lt: "s * 2 ^ q < 2 ^ 32" by simp
  have x2: "x \<noteq> 2" using x s by (cases q) auto
  have temp: "sub_u32 x 1 = s * 2 ^ q"
    using x le by (simp add: sub_u32_eq)
  have npow: "\<not> IsPowerOfTwo (s * 2 ^ q)"
  proof
    assume "IsPowerOfTwo (s * 2 ^ q)"
    with lt obtain m where "s * 2 ^ q = 2 ^ m" using IsPowerOfTwo_D by blast
    with s have "s = 1" using odd_times_power_eq_power by blast
    with s show False by simp
  qed
  have strip: "strip_twos 0 (s * 2 ^ q) = Some (int q, s)"
    using strip_twos_shift [OF s(1), of 0 q] by simp
  have cl: "ceillog2 s = c" using c by (rule ceillog2_eqI)
  have c31': "(2::nat) ^ c \<le> 2 ^ 31" using c31 by (intro power_increasing) simp_all
  then have t31: "(2::nat) ^ c - s < 2 ^ 31" using s by simp
  have "(2::nat) ^ c < 2 ^ 32" using c31' by simp
  then have k: "to_int32 (sub_u32 (2 ^ c) s) = int (2 ^ c - s)"
    using c t31 by (simp add: sub_u32_eq to_int32_def)
  show ?thesis
    using x2 temp npow strip cl k qc c31
    by (simp add: DecomposePrime_def shl1_u32_def log2_floor_power Let_def nat_add_distrib)
qed

lemma IsPowerOfTwo_power: "n < 32 \<Longrightarrow> IsPowerOfTwo (2 ^ n)"
proof -
  assume n: "n < 32"
  then have "(2::nat) ^ n < 2 ^ 32" by (intro power_strict_increasing) simp_all
  then have "sub_u32 (2 ^ n) 1 = 2 ^ n - 1" by (simp add: sub_u32_eq)
  moreover have "(2::nat) ^ n - 1 = mask n" by (simp add: mask_eq_exp_minus_1)
  moreover have "(2::nat) ^ n AND mask n = 0"
    by (rule bit_eqI) (auto simp add: bit_and_iff bit_exp_iff bit_mask_iff)
  ultimately show ?thesis by (simp add: IsPowerOfTwo_def)
qed

lemma DecomposePrime_fermat:
  assumes m: "1 \<le> m" "m < 31"
  shows "DecomposePrime (2 ^ m + 1) =
    Some (Inr \<lparr>exponent_p = int m, coefficient_k = 0, shift_q = 1,
               modulus_R = 2 ^ (m + 1), is_valid = True\<rparr>)"
proof -
  have "(2::nat) ^ m \<le> 2 ^ 30" using m by (intro power_increasing) simp_all
  then have temp: "sub_u32 (2 ^ m + 1) 1 = 2 ^ m" by (simp add: sub_u32_eq)
  have x2: "(2::nat) ^ m + 1 \<noteq> 2" using m by simp
  have "IsPowerOfTwo (2 ^ m)" using m by (simp add: IsPowerOfTwo_power)
  then show ?thesis
    using x2 temp m
    by (simp add: DecomposePrime_def shl1_u32_def log2_floor_power Let_def nat_add_distrib)
qed

lemma d3329: "DecomposePrime 3329 = Some (Inr \<lparr>exponent_p = 12, coefficient_k = 3, shift_q = 8, modulus_R = 4096, is_valid = True\<rparr>)"
  using DecomposePrime_general [of 13 4 8 3329] by simp

lemma d65537: "DecomposePrime 65537 = Some (Inr \<lparr>exponent_p = 16, coefficient_k = 0, shift_q = 1, modulus_R = 131072, is_valid = True\<rparr>)"
  using DecomposePrime_fermat [of 16] by simp


lemma strip_twos_total:
  assumes "s \<noteq> 0"
  shows "\<exists>q' s'. strip_twos q s = Some (q', s') \<and> odd s'"
proof -
  from assms obtain t k where "odd t" "s = t * 2 ^ k" using factor_twos [of s] by auto
  then show ?thesis by (auto simp add: strip_twos_shift)
qed

lemma sub_u32_one_lt: "sub_u32 x 1 < 2 ^ 32"
  by (simp add: sub_u32_def)

lemma sub_u32_one_zero:
  assumes "x < 2 ^ 32"
  shows "sub_u32 x 1 = 0 \<longleftrightarrow> x = 1"
proof (cases "x = 0")
  case True
  then show ?thesis by (simp add: sub_u32_def)
next
  case False
  with assms have "sub_u32 x 1 = x - 1" by (intro sub_u32_eq) simp_all
  with False show ?thesis by auto
qed

lemma sub_u32_one_pred:
  assumes "x < 2 ^ 32" "sub_u32 x 1 \<le> 2 ^ 31"
  shows "x = sub_u32 x 1 + 1"
proof (cases "x = 0")
  case True
  with assms(2) show ?thesis by (simp add: sub_u32_def)
next
  case False
  with assms have "sub_u32 x 1 = x - 1" by (intro sub_u32_eq) simp_all
  with False show ?thesis by auto
qed

lemma DecomposePrime_cases:
  assumes x: "x < 2 ^ 32" and d: "DecomposePrime x = Some (Inr d)"
  obtains
    (two) "x = 2"
      "d = \<lparr>exponent_p = 1, coefficient_k = 1, shift_q = 0, modulus_R = 2, is_valid = True\<rparr>"
  | (fermat) m where "1 \<le> m" "m < 31" "x = 2 ^ m + 1" "IsPowerOfTwo (sub_u32 x 1)"
      "d = \<lparr>exponent_p = int m, coefficient_k = 0, shift_q = 1, modulus_R = 2 ^ (m + 1),
            is_valid = True\<rparr>"
  | (general) s q c where "odd s" "3 \<le> s" "s \<le> 2 ^ c" "2 ^ c < 2 * s" "q + c < 32"
      "x = s * 2 ^ q + 1" "\<not> IsPowerOfTwo (sub_u32 x 1)"
      "d = \<lparr>exponent_p = int (q + c), coefficient_k = int (2 ^ c - s), shift_q = int q,
            modulus_R = 2 ^ (q + c), is_valid = True\<rparr>"
proof (cases "x = 2")
  case True
  with d have "d = \<lparr>exponent_p = 1, coefficient_k = 1, shift_q = 0, modulus_R = 2, is_valid = True\<rparr>"
    by (simp add: DecomposePrime_def)
  with True show ?thesis by (rule two)
next
  case x2: False
  define temp where "temp = sub_u32 x 1"
  have temp32: "temp < 2 ^ 32" unfolding temp_def by (rule sub_u32_one_lt)
  have D: "DecomposePrime x =
    (if IsPowerOfTwo temp then
       (case shl1_u32 (int (log2_floor temp) + 1) of
          Inl e \<Rightarrow> Some (Inl e)
        | Inr R \<Rightarrow>
            Some (Inr \<lparr>exponent_p = int (log2_floor temp), coefficient_k = 0, shift_q = 1,
                       modulus_R = R, is_valid = True\<rparr>))
     else
       (case strip_twos 0 temp of
          None \<Rightarrow> None
        | Some (q, s) \<Rightarrow>
            (case shl1_u32 (int (ceillog2 s)) of
               Inl e \<Rightarrow> Some (Inl e)
             | Inr t \<Rightarrow>
                 (case shl1_u32 (q + int (log2_floor t)) of
                    Inl e \<Rightarrow> Some (Inl e)
                  | Inr R \<Rightarrow>
                      Some (Inr \<lparr>exponent_p = q + int (log2_floor t),
                                 coefficient_k = to_int32 (sub_u32 t s),
                                 shift_q = q, modulus_R = R, is_valid = True\<rparr>)))))"
    by (simp only: DecomposePrime_def temp_def Let_def x2 if_False)
  note d' = d [unfolded D]
  show ?thesis
  proof (cases "IsPowerOfTwo temp")
    case True
    with temp32 obtain m where m: "temp = 2 ^ m" using IsPowerOfTwo_D by blast
    from d' True have "shl1_u32 (int (log2_floor temp) + 1) \<noteq> Inl Undefined"
      by (auto split: sum.splits)
    then have m31: "m < 31" by (auto simp add: m log2_floor_power shl1_u32_def split: if_splits)
    then have "(2::nat) ^ m \<le> 2 ^ 30" by (intro power_increasing) simp_all
    then have "temp \<le> 2 ^ 31" by (simp add: m)
    then have "sub_u32 x 1 \<le> 2 ^ 31" by (simp only: temp_def)
    with x have "x = sub_u32 x 1 + 1" by (rule sub_u32_one_pred)
    then have "x = temp + 1" by (simp only: temp_def)
    then have xt: "x = 2 ^ m + 1" by (simp only: m)
    with x2 have m1: "1 \<le> m" by (cases m) simp_all
    from DecomposePrime_fermat [OF m1 m31] d xt
    have "d = \<lparr>exponent_p = int m, coefficient_k = 0, shift_q = 1, modulus_R = 2 ^ (m + 1),
            is_valid = True\<rparr>" by simp
    with m1 m31 xt True show ?thesis unfolding temp_def by (rule fermat)
  next
    case npow: False
    from d' npow have "strip_twos 0 temp \<noteq> None"
      by (auto split: option.splits)
    then obtain q' s where st: "strip_twos 0 temp = Some (q', s)" by auto
    from strip_twos_Some [OF st] have s: "odd s" "0 \<le> q'" "temp = s * 2 ^ nat q'" by simp_all
    define q where "q = nat q'"
    have q': "q' = int q" using s by (simp add: q_def)
    have ts: "temp = s * 2 ^ q" using s by (simp add: q_def)
    define c where "c = ceillog2 s"
    have s0: "0 < s" using s by (cases "s = 0") simp_all
    have c: "s \<le> 2 ^ c" "2 ^ c < 2 * s"
      using s0 by (simp_all add: c_def le_two_power_ceillog2 two_power_ceillog2_gt)
    from d' npow st have "shl1_u32 (int c) \<noteq> Inl Undefined"
      by (auto simp add: c_def split: sum.splits)
    then have c32: "c < 32" by (auto simp add: shl1_u32_def split: if_splits)
    then have tc: "shl1_u32 (int c) = Inr (2 ^ c)" by (simp add: shl1_u32_def)
    from d' npow st tc have "shl1_u32 (q' + int c) \<noteq> Inl Undefined"
      by (auto simp add: c_def [symmetric] log2_floor_power split: sum.splits)
    then have qc: "q + c < 32" by (auto simp add: shl1_u32_def q' split: if_splits)
    have "temp \<le> 2 ^ c * 2 ^ q" using c ts by simp
    also have "\<dots> = 2 ^ (q + c)" by (simp add: power_add)
    also have "\<dots> \<le> (2::nat) ^ 31" using qc by (intro power_increasing) simp_all
    finally have "temp \<le> 2 ^ 31" .
    then have "sub_u32 x 1 \<le> 2 ^ 31" by (simp only: temp_def)
    with x have "x = sub_u32 x 1 + 1" by (rule sub_u32_one_pred)
    then have "x = temp + 1" by (simp only: temp_def)
    then have xt: "x = s * 2 ^ q + 1" by (simp only: ts)
    have s3: "3 \<le> s"
    proof (rule ccontr)
      assume "\<not> 3 \<le> s"
      with s s0 have "s = 1" by (cases "s = 2") auto
      with ts qc have "IsPowerOfTwo temp" by (simp add: IsPowerOfTwo_power)
      with npow show False by simp
    qed
    from DecomposePrime_general [OF s(1) s3 c qc xt] d
    have "d = \<lparr>exponent_p = int (q + c), coefficient_k = int (2 ^ c - s), shift_q = int q,
            modulus_R = 2 ^ (q + c), is_valid = True\<rparr>" by simp
    with s(1) s3 c qc xt npow show ?thesis unfolding temp_def by (rule general)
  qed
qed

section \<open>Properties of DecomposePrime\<close>

lemma DecomposePrime_None_iff:
  assumes x: "x < 2 ^ 32"
  shows "DecomposePrime x = None \<longleftrightarrow> x = 1"
proof (cases "x = 2")
  case True
  then show ?thesis by (simp add: DecomposePrime_def)
next
  case x2: False
  define temp where "temp = sub_u32 x 1"
  have t0: "temp = 0 \<longleftrightarrow> x = 1" unfolding temp_def using x by (rule sub_u32_one_zero)
  have D: "DecomposePrime x =
    (if IsPowerOfTwo temp then
       (case shl1_u32 (int (log2_floor temp) + 1) of
          Inl e \<Rightarrow> Some (Inl e)
        | Inr R \<Rightarrow>
            Some (Inr \<lparr>exponent_p = int (log2_floor temp), coefficient_k = 0, shift_q = 1,
                       modulus_R = R, is_valid = True\<rparr>))
     else
       (case strip_twos 0 temp of
          None \<Rightarrow> None
        | Some (q, s) \<Rightarrow>
            (case shl1_u32 (int (ceillog2 s)) of
               Inl e \<Rightarrow> Some (Inl e)
             | Inr t \<Rightarrow>
                 (case shl1_u32 (q + int (log2_floor t)) of
                    Inl e \<Rightarrow> Some (Inl e)
                  | Inr R \<Rightarrow>
                      Some (Inr \<lparr>exponent_p = q + int (log2_floor t),
                                 coefficient_k = to_int32 (sub_u32 t s),
                                 shift_q = q, modulus_R = R, is_valid = True\<rparr>)))))"
    by (simp only: DecomposePrime_def temp_def Let_def x2 if_False)
  show ?thesis
  proof (cases "temp = 0")
    case True
    then have "\<not> IsPowerOfTwo temp" by (simp add: IsPowerOfTwo_def)
    with True have "DecomposePrime x = None" by (simp add: D strip_twos_zero)
    moreover have "x = 1" using True t0 by simp
    ultimately show ?thesis by simp
  next
    case False
    then obtain q s where "strip_twos 0 temp = Some (q, s)"
      using strip_twos_total [of temp 0] by blast
    then have "DecomposePrime x \<noteq> None" by (simp add: D split: sum.splits)
    moreover have "x \<noteq> 1" using False t0 by simp
    ultimately show ?thesis by simp
  qed
qed

lemma shl1_u32_Inl: "shl1_u32 n = Inl e \<Longrightarrow> e = Undefined"
  by (simp add: shl1_u32_def split: if_splits)

lemma DecomposePrime_Inl:
  assumes "DecomposePrime x = Some (Inl e)"
  shows "e = Undefined"
proof (cases "x = 2")
  case True
  with assms show ?thesis by (simp add: DecomposePrime_def)
next
  case x2: False
  define temp where "temp = sub_u32 x 1"
  have D: "DecomposePrime x =
    (if IsPowerOfTwo temp then
       (case shl1_u32 (int (log2_floor temp) + 1) of
          Inl e \<Rightarrow> Some (Inl e)
        | Inr R \<Rightarrow>
            Some (Inr \<lparr>exponent_p = int (log2_floor temp), coefficient_k = 0, shift_q = 1,
                       modulus_R = R, is_valid = True\<rparr>))
     else
       (case strip_twos 0 temp of
          None \<Rightarrow> None
        | Some (q, s) \<Rightarrow>
            (case shl1_u32 (int (ceillog2 s)) of
               Inl e \<Rightarrow> Some (Inl e)
             | Inr t \<Rightarrow>
                 (case shl1_u32 (q + int (log2_floor t)) of
                    Inl e \<Rightarrow> Some (Inl e)
                  | Inr R \<Rightarrow>
                      Some (Inr \<lparr>exponent_p = q + int (log2_floor t),
                                 coefficient_k = to_int32 (sub_u32 t s),
                                 shift_q = q, modulus_R = R, is_valid = True\<rparr>)))))"
    by (simp only: DecomposePrime_def temp_def Let_def x2 if_False)
  from assms [unfolded D] show ?thesis
    by (auto split: if_splits sum.splits option.splits dest: shl1_u32_Inl)
qed

lemma DecomposePrime_returns:
  assumes x: "2 \<le> x" "x \<le> 2 ^ 31"
  shows "\<exists>d. DecomposePrime x = Some (Inr d)"
proof (cases "x = 2")
  case True
  then show ?thesis by (simp add: DecomposePrime_def)
next
  case x2: False
  define temp where "temp = x - 1"
  have xt: "x = temp + 1" using x by (simp add: temp_def)
  have t31: "temp < 2 ^ 31" using x by (simp add: temp_def)
  have tpos: "0 < temp" using x by (simp add: temp_def)
  from tpos obtain s q where sq: "odd s" "temp = s * 2 ^ q" using factor_twos by blast
  show ?thesis
  proof (cases "s = 1")
    case True
    then have tq: "temp = 2 ^ q" using sq by simp
    with t31 have "(2::nat) ^ q < 2 ^ 31" by simp
    then have q31: "q < 31" by (rule power_less_imp_less_exp [rotated]) simp
    have "q \<noteq> 0" using tq xt x2 by (cases q) simp_all
    then have q1: "1 \<le> q" by simp
    from DecomposePrime_fermat [OF q1 q31] show ?thesis by (simp add: xt tq)
  next
    case False
    with sq(1) have s3: "3 \<le> s" by (cases "s = 0"; cases "s = 2") auto
    define c where "c = ceillog2 s"
    have c: "s \<le> 2 ^ c" "2 ^ c < 2 * s"
      using s3 by (simp_all add: c_def le_two_power_ceillog2 two_power_ceillog2_gt)
    have "(2::nat) ^ (q + c) = 2 ^ c * 2 ^ q" by (simp add: power_add)
    also have "\<dots> < 2 * s * 2 ^ q" using c(2) by simp
    also have "\<dots> = 2 * temp" by (simp add: sq(2))
    also have "\<dots> < 2 ^ 32" using t31 by simp
    finally have "(2::nat) ^ (q + c) < 2 ^ 32" .
    then have "q + c < 32" by (rule power_less_imp_less_exp [rotated]) simp
    moreover have "x = s * 2 ^ q + 1" by (simp add: xt sq(2))
    ultimately show ?thesis using DecomposePrime_general [OF sq(1) s3 c] by simp
  qed
qed

lemma DecomposePrime_Inr_range:
  assumes "x < 2 ^ 32" and "DecomposePrime x = Some (Inr d)"
  shows "2 \<le> x \<and> x \<le> 2 ^ 31"
  using assms
proof (cases rule: DecomposePrime_cases)
  case two
  then show ?thesis by simp
next
  case (fermat m)
  have "(2::nat) ^ m \<le> 2 ^ 30" using fermat(2) by (intro power_increasing) simp_all
  moreover have "(2::nat) ^ 1 \<le> 2 ^ m" using fermat(1) by (intro power_increasing) simp_all
  ultimately show ?thesis by (simp add: fermat(3))
next
  case (general s q c)
  have "s * 2 ^ q \<le> 2 ^ c * 2 ^ q" using general(3) by simp
  also have "\<dots> = 2 ^ (q + c)" by (simp add: power_add)
  also have "\<dots> \<le> (2::nat) ^ 31" using general(5) by (intro power_increasing) simp_all
  finally have le: "s * 2 ^ q \<le> 2 ^ 31" .
  have "s * 2 ^ q \<noteq> 2 ^ 31"
  proof
    assume "s * 2 ^ q = 2 ^ 31"
    with general(1) have "s = 1" by (rule odd_times_power_eq_power)
    with general(2) show False by simp
  qed
  with le have "s * 2 ^ q < 2 ^ 31" by simp
  moreover have "1 \<le> s * 2 ^ q" using general(2) by (simp add: Suc_le_eq)
  ultimately show ?thesis by (simp add: general(6))
qed

lemma DecomposePrime_outside:
  assumes x: "x < 2 ^ 32" and out: "x = 0 \<or> 2 ^ 31 < x"
  shows "DecomposePrime x = Some (Inl Undefined)"
proof -
  have "x \<noteq> 1" using out by auto
  then have "DecomposePrime x \<noteq> None" using x by (simp add: DecomposePrime_None_iff)
  then obtain v where v: "DecomposePrime x = Some v" by auto
  show ?thesis
  proof (cases v)
    case (Inl e)
    with v show ?thesis using DecomposePrime_Inl [of x e] by simp
  next
    case (Inr d)
    with v have "DecomposePrime x = Some (Inr d)" by simp
    with x have "2 \<le> x \<and> x \<le> 2 ^ 31" by (rule DecomposePrime_Inr_range)
    with out show ?thesis by auto
  qed
qed

lemma d65537_params: "DecomposePrime 65537 = Some (Inr fermat_params)"
  unfolding fermat_params_def by (rule d65537)

text \<open>
  Claim C10, as stated, fails at \<open>x = 0\<close>: the stripping loop exits at once with the odd
  \<open>s = 2 ^ 32 - 1\<close>, but the function then evaluates \<open>1U << 32\<close>, which is undefined, and
  so returns no defined result.
\<close>

theorem DecomposePrime_undefined_at_zero_counterexample:
  "DecomposePrime 0 = Some (Inl Undefined)"
  by (rule DecomposePrime_outside) simp_all

text \<open>
  Claim C10, amended. Among the 32-bit inputs, \<open>DecomposePrime\<close> fails to terminate exactly
  for \<open>x = 1\<close>, where the stripping loop is entered with \<open>s = 0\<close> and never exits; for every
  other input the loop reaches an odd \<open>s\<close>. The function returns a decomposition exactly
  for \<open>2 \<le> x \<le> 2 ^ 31\<close>; for \<open>x = 0\<close> and for \<open>x > 2 ^ 31\<close> it goes on to a shift by 32,
  which is undefined.
\<close>

theorem DecomposePrime_outcome:
  assumes "x < 2 ^ 32"
  shows "(DecomposePrime x = None \<longleftrightarrow> x = 1)
    \<and> (DecomposePrime x = None \<longleftrightarrow>
          x \<noteq> 2 \<and> \<not> IsPowerOfTwo (sub_u32 x 1) \<and> strip_twos 0 (sub_u32 x 1) = None)
    \<and> (x \<noteq> 1 \<longrightarrow> (\<exists>q s. strip_twos 0 (sub_u32 x 1) = Some (q, s) \<and> odd s))
    \<and> ((\<exists>d. DecomposePrime x = Some (Inr d)) \<longleftrightarrow> 2 \<le> x \<and> x \<le> 2 ^ 31)
    \<and> (x = 0 \<or> 2 ^ 31 < x \<longrightarrow> DecomposePrime x = Some (Inl Undefined))"
proof -
  have none: "DecomposePrime x = None \<longleftrightarrow> x = 1"
    using assms by (rule DecomposePrime_None_iff)
  have zero: "sub_u32 x 1 = 0 \<longleftrightarrow> x = 1" using assms by (rule sub_u32_one_zero)
  have loop_none: "strip_twos 0 (sub_u32 x 1) = None \<longleftrightarrow> x = 1"
  proof
    assume "strip_twos 0 (sub_u32 x 1) = None"
    then have "sub_u32 x 1 = 0" using strip_twos_total [of "sub_u32 x 1" 0] by auto
    with zero show "x = 1" by (rule iffD1)
  next
    assume "x = 1"
    with zero have "sub_u32 x 1 = 0" by (rule iffD2)
    then show "strip_twos 0 (sub_u32 x 1) = None" by (simp only: strip_twos_zero)
  qed
  have tie: "DecomposePrime x = None \<longleftrightarrow>
    x \<noteq> 2 \<and> \<not> IsPowerOfTwo (sub_u32 x 1) \<and> strip_twos 0 (sub_u32 x 1) = None"
  proof
    assume "DecomposePrime x = None"
    with none have x1: "x = 1" by (rule iffD1)
    with zero have z: "sub_u32 x 1 = 0" by (rule iffD2)
    have "\<not> IsPowerOfTwo (sub_u32 x 1)" unfolding z by (simp add: IsPowerOfTwo_def)
    moreover have "strip_twos 0 (sub_u32 x 1) = None" using loop_none x1 by (rule iffD2)
    moreover have "x \<noteq> 2" using x1 by simp
    ultimately show "x \<noteq> 2 \<and> \<not> IsPowerOfTwo (sub_u32 x 1)
      \<and> strip_twos 0 (sub_u32 x 1) = None" by simp
  next
    assume "x \<noteq> 2 \<and> \<not> IsPowerOfTwo (sub_u32 x 1) \<and> strip_twos 0 (sub_u32 x 1) = None"
    then have "strip_twos 0 (sub_u32 x 1) = None" by simp
    with loop_none have "x = 1" by (rule iffD1)
    with none show "DecomposePrime x = None" by (rule iffD2)
  qed
  have loop: "\<exists>q s. strip_twos 0 (sub_u32 x 1) = Some (q, s) \<and> odd s" if "x \<noteq> 1"
  proof -
    from that zero have "sub_u32 x 1 \<noteq> 0" by auto
    then show ?thesis by (rule strip_twos_total)
  qed
  have ret: "(\<exists>d. DecomposePrime x = Some (Inr d)) \<longleftrightarrow> 2 \<le> x \<and> x \<le> 2 ^ 31"
  proof
    assume "\<exists>d. DecomposePrime x = Some (Inr d)"
    then obtain d where "DecomposePrime x = Some (Inr d)" ..
    with assms show "2 \<le> x \<and> x \<le> 2 ^ 31" by (rule DecomposePrime_Inr_range)
  next
    assume "2 \<le> x \<and> x \<le> 2 ^ 31"
    then show "\<exists>d. DecomposePrime x = Some (Inr d)" by (simp add: DecomposePrime_returns)
  qed
  have undef: "DecomposePrime x = Some (Inl Undefined)" if "x = 0 \<or> 2 ^ 31 < x"
    using assms that by (rule DecomposePrime_outside)
  from none tie loop ret undef show ?thesis by (intro conjI impI)
qed

theorem DecomposePrime_outcome_witness:
  "(1::nat) < 2 ^ 32 \<and> DecomposePrime 1 = None
   \<and> (3329::nat) < 2 ^ 32 \<and> (\<exists>d. DecomposePrime 3329 = Some (Inr d))
   \<and> (4294967295::nat) < 2 ^ 32 \<and> DecomposePrime 4294967295 = Some (Inl Undefined)"
  using DecomposePrime_outcome [of 1] DecomposePrime_outcome [of 3329]
    DecomposePrime_outcome [of 4294967295]
  by simp

text \<open>
  Claim C2, as stated, fails on the Fermat-like branch, which returns
  \<open>modulus_R = 2 ^ (exponent_p + 1)\<close>: for \<open>x = 65537\<close> the fields give
  \<open>modulus_R - coefficient_k * 2 ^ shift_q + 1 = 131073\<close>.
\<close>

theorem DecomposePrime_modulus_R_counterexample:
  "DecomposePrime 65537 =
     Some (Inr \<lparr>exponent_p = 16, coefficient_k = 0, shift_q = 1, modulus_R = 131072,
                is_valid = True\<rparr>)
   \<and> (65537::int) \<noteq> int 131072 - 0 * 2 ^ 1 + 1"
  using DecomposePrime_fermat [of 16] by simp

text \<open>
  Claim C2, amended. For every \<open>x\<close> with \<open>2 \<le> x \<le> 2 ^ 31\<close> the function returns a valid
  decomposition with \<open>x = 2 ^ exponent_p - coefficient_k * 2 ^ shift_q + 1\<close>. When \<open>x = 2\<close> or
  \<open>x - 1\<close> is not a power of two, \<open>modulus_R = 2 ^ exponent_p\<close>, hence
  \<open>x = modulus_R - coefficient_k * 2 ^ shift_q + 1\<close>. When \<open>x - 1\<close> is a power of two and
  \<open>x \<noteq> 2\<close>, \<open>coefficient_k = 0\<close>, \<open>shift_q = 1\<close> and \<open>modulus_R = 2 ^ (exponent_p + 1)\<close>,
  hence \<open>x = modulus_R div 2 + 1\<close>.
\<close>

theorem DecomposePrime_form:
  assumes "2 \<le> x" and "x \<le> 2 ^ 31"
  shows "\<exists>d. DecomposePrime x = Some (Inr d) \<and> is_valid d
    \<and> int x = 2 ^ nat (exponent_p d) - coefficient_k d * 2 ^ nat (shift_q d) + 1
    \<and> (if x \<noteq> 2 \<and> IsPowerOfTwo (sub_u32 x 1)
        then coefficient_k d = 0 \<and> shift_q d = 1
          \<and> modulus_R d = 2 * 2 ^ nat (exponent_p d) \<and> x = modulus_R d div 2 + 1
        else modulus_R d = 2 ^ nat (exponent_p d)
          \<and> int x = int (modulus_R d) - coefficient_k d * 2 ^ nat (shift_q d) + 1)"
proof -
  from assms obtain d where d: "DecomposePrime x = Some (Inr d)"
    using DecomposePrime_returns by blast
  have x32: "x < 2 ^ 32" using assms(2) by simp
  have "is_valid d
    \<and> int x = 2 ^ nat (exponent_p d) - coefficient_k d * 2 ^ nat (shift_q d) + 1
    \<and> (if x \<noteq> 2 \<and> IsPowerOfTwo (sub_u32 x 1)
        then coefficient_k d = 0 \<and> shift_q d = 1
          \<and> modulus_R d = 2 * 2 ^ nat (exponent_p d) \<and> x = modulus_R d div 2 + 1
        else modulus_R d = 2 ^ nat (exponent_p d)
          \<and> int x = int (modulus_R d) - coefficient_k d * 2 ^ nat (shift_q d) + 1)"
    using x32 d
  proof (cases rule: DecomposePrime_cases)
    case two
    then show ?thesis by simp
  next
    case (fermat m)
    have "x \<noteq> 2" using fermat(1,3) by simp
    with fermat show ?thesis by simp
  next
    case (general s q c)
    have e: "int (2 ^ c - s) = 2 ^ c - int s" using general(3) by (simp add: of_nat_diff)
    have p: "nat (exponent_p d) = q + c" "nat (shift_q d) = q"
      "coefficient_k d = 2 ^ c - int s" "modulus_R d = 2 ^ (q + c)" "is_valid d"
      using general(8) e by (simp_all add: nat_add_distrib)
    have "int x = int s * 2 ^ q + 1" using general(6) by simp
    also have "\<dots> = 2 ^ (q + c) - (2 ^ c - int s) * 2 ^ q + 1"
      by (simp add: power_add algebra_simps)
    finally have f: "int x = 2 ^ nat (exponent_p d) - coefficient_k d * 2 ^ nat (shift_q d) + 1"
      by (simp only: p)
    then have "int x = int (modulus_R d) - coefficient_k d * 2 ^ nat (shift_q d) + 1"
      by (simp add: p(1,4))
    with f p(1,4,5) general(7) show ?thesis by simp
  qed
  with d show ?thesis by blast
qed

theorem DecomposePrime_form_witness:
  "(2::nat) \<le> 65537 \<and> (65537::nat) \<le> 2 ^ 31
   \<and> DecomposePrime 65537 = Some (Inr fermat_params) \<and> is_valid fermat_params
   \<and> (65537::int) = 2 ^ nat (exponent_p fermat_params)
        - coefficient_k fermat_params * 2 ^ nat (shift_q fermat_params) + 1
   \<and> coefficient_k fermat_params = 0 \<and> shift_q fermat_params = 1
   \<and> modulus_R fermat_params = 2 * 2 ^ nat (exponent_p fermat_params)
   \<and> (65537::nat) = modulus_R fermat_params div 2 + 1"
proof -
  have h: "(2::nat) \<le> 65537" "(65537::nat) \<le> 2 ^ 31" by simp_all
  have pw: "IsPowerOfTwo (sub_u32 65537 1)"
    using IsPowerOfTwo_power [of 16] by (simp add: sub_u32_def)
  from DecomposePrime_form [OF h] obtain d where d: "DecomposePrime 65537 = Some (Inr d)"
    "is_valid d"
    "int 65537 = 2 ^ nat (exponent_p d) - coefficient_k d * 2 ^ nat (shift_q d) + 1"
    "(if (65537::nat) \<noteq> 2 \<and> IsPowerOfTwo (sub_u32 65537 1)
        then coefficient_k d = 0 \<and> shift_q d = 1
          \<and> modulus_R d = 2 * 2 ^ nat (exponent_p d) \<and> 65537 = modulus_R d div 2 + 1
        else modulus_R d = 2 ^ nat (exponent_p d)
          \<and> int 65537 = int (modulus_R d) - coefficient_k d * 2 ^ nat (shift_q d) + 1)"
    by blast
  from d(1) have eq: "d = fermat_params" by (simp add: d65537_params)
  have c: "(65537::nat) \<noteq> 2 \<and> IsPowerOfTwo (sub_u32 65537 1)" using pw by simp
  from d(4) have kk: "coefficient_k d = 0 \<and> shift_q d = 1
          \<and> modulus_R d = 2 * 2 ^ nat (exponent_p d) \<and> 65537 = modulus_R d div 2 + 1"
    unfolding if_P [OF c] .
  note r1 = d(1) [unfolded eq] and r2 = d(2) [unfolded eq]
    and r3 = d(3) [unfolded eq of_nat_numeral]
    and k1 = kk [unfolded eq, THEN conjunct1]
    and k2 = kk [unfolded eq, THEN conjunct2, THEN conjunct1]
    and k3 = kk [unfolded eq, THEN conjunct2, THEN conjunct2, THEN conjunct1]
    and k4 = kk [unfolded eq, THEN conjunct2, THEN conjunct2, THEN conjunct2]
  show ?thesis by (intro conjI) (rule h r1 r2 r3 k1 k2 k3 k4)+
qed

text \<open>
  Claim C5, as stated, fails: the even input \<open>x = 4\<close> is decomposed with
  \<open>is_valid = True\<close>.
\<close>

theorem DecomposePrime_even_counterexample:
  "DecomposePrime 4 =
     Some (Inr \<lparr>exponent_p = 2, coefficient_k = 1, shift_q = 0, modulus_R = 4,
                is_valid = True\<rparr>)"
proof -
  have "DecomposePrime 4 =
    Some (Inr \<lparr>exponent_p = int (0 + 2), coefficient_k = int (2 ^ 2 - 3), shift_q = int 0,
               modulus_R = 2 ^ (0 + 2), is_valid = True\<rparr>)"
    by (rule DecomposePrime_general) simp_all
  then show ?thesis by simp
qed

text \<open>
  Claim C5, amended. No call returns a decomposition with \<open>is_valid = False\<close>: every even
  \<open>x\<close> with \<open>4 \<le> x \<le> 2 ^ 31\<close> is decomposed with \<open>is_valid = True\<close> and \<open>shift_q = 0\<close>, and
  for \<open>x = 1\<close> the call does not return.
\<close>

theorem DecomposePrime_never_invalid:
  assumes "x < 2 ^ 32"
  shows "(\<forall>d. DecomposePrime x = Some (Inr d) \<longrightarrow> is_valid d)
    \<and> (even x \<and> 4 \<le> x \<and> x \<le> 2 ^ 31 \<longrightarrow>
         (\<exists>d. DecomposePrime x = Some (Inr d) \<and> is_valid d \<and> shift_q d = 0))
    \<and> (x = 1 \<longrightarrow> DecomposePrime x = None)"
proof (intro conjI impI allI)
  fix d
  assume "DecomposePrime x = Some (Inr d)"
  with assms show "is_valid d" by (cases rule: DecomposePrime_cases) simp_all
next
  assume e: "even x \<and> 4 \<le> x \<and> x \<le> 2 ^ 31"
  define s where "s = x - 1"
  have s: "odd s" "3 \<le> s" "x = s * 2 ^ 0 + 1" "s \<le> 2 ^ 31" using e by (auto simp add: s_def)
  have c: "s \<le> 2 ^ ceillog2 s" "2 ^ ceillog2 s < 2 * s"
    using s(2) by (simp_all add: le_two_power_ceillog2 two_power_ceillog2_gt)
  have "ceillog2 s \<le> 31" using s(2,4) by (subst ceillog2_le_iff) simp_all
  then have "0 + ceillog2 s < 32" by simp
  from DecomposePrime_general [OF s(1,2) c this s(3)]
  show "\<exists>d. DecomposePrime x = Some (Inr d) \<and> is_valid d \<and> shift_q d = 0" by simp
next
  assume "x = 1"
  with assms show "DecomposePrime x = None" by (simp only: DecomposePrime_None_iff)
qed

theorem DecomposePrime_never_invalid_witness:
  "(6::nat) < 2 ^ 32 \<and> even (6::nat) \<and> (4::nat) \<le> 6 \<and> (6::nat) \<le> 2 ^ 31
   \<and> (\<exists>d. DecomposePrime 6 = Some (Inr d) \<and> is_valid d \<and> shift_q d = 0)"
  using DecomposePrime_never_invalid [of 6] by simp

section \<open>Primality of the supported moduli\<close>

text \<open>
  Each supported modulus has the form \<open>k * 2 ^ n + 1\<close> with \<open>k < 2 ^ n\<close>. For such a number a
  base \<open>a\<close> with \<open>a ^ ((N - 1) div 2) mod N = N - 1\<close> certifies that every divisor other
  than \<open>1\<close> exceeds \<open>2 ^ n\<close>, hence that \<open>N\<close> divides a product of two smaller numbers
  only if one of them is \<open>0\<close>.
\<close>

declare modpow.simps [simp del]

lemma modpow_eq: "modpow a e N = a ^ e mod N"
proof (induction a e N rule: modpow.induct)
  case (1 a e N)
  show ?case
  proof (cases "e = 0")
    case True
    then show ?thesis by (simp add: modpow.simps)
  next
    case e0: False
    show ?thesis
    proof (cases "even e")
      case True
      then obtain h where h: "e = 2 * h" by (auto elim: evenE)
      have "modpow a e N = (modpow a (e div 2) N)\<^sup>2 mod N"
        using e0 True by (subst modpow.simps) simp
      also have "\<dots> = (a ^ h mod N)\<^sup>2 mod N" using "1.IH"(1) [OF e0 True] h by simp
      also have "\<dots> = (a ^ h)\<^sup>2 mod N" by (simp add: power_mod)
      also have "\<dots> = a ^ e mod N" by (simp add: h power_mult [symmetric] mult.commute)
      finally show ?thesis .
    next
      case False
      then obtain h where h: "e = Suc h" using e0 by (cases e) simp_all
      have "modpow a e N = (a * modpow a (e - 1) N) mod N"
        using e0 False by (subst modpow.simps) simp
      also have "\<dots> = (a * (a ^ h mod N)) mod N" using "1.IH"(2) [OF e0 False] h by simp
      also have "\<dots> = a ^ e mod N" by (simp add: h mod_mult_right_eq)
      finally show ?thesis .
    qed
  qed
qed

lemma pred_mod_of_dvd:
  fixes r N :: nat
  assumes "r dvd N" "0 < N" "1 < r"
  shows "(N - 1) mod r = r - 1"
proof -
  from assms obtain j where j: "N = r * j" by (auto elim: dvdE)
  with assms have "0 < j" by (cases j) simp_all
  then obtain i where i: "j = Suc i" by (cases j) simp_all
  have "N - 1 = r * i + (r - 1)" using j i assms(3) by simp
  then have "(N - 1) mod r = (r - 1) mod r" by (simp only: mod_mult_self4)
  then show ?thesis using assms(3) by simp
qed

lemma pred_sq_mod:
  fixes r :: nat
  assumes "1 < r"
  shows "((r - 1) * (r - 1)) mod r = 1"
proof -
  from assms obtain m where m: "r = Suc (Suc m)" by (cases r; cases "r - 1") simp_all
  have "(r - 1) * (r - 1) = r * m + 1" by (simp add: m)
  then have "((r - 1) * (r - 1)) mod r = 1 mod r" by (simp only: mod_mult_self4)
  then show ?thesis using assms by simp
qed

lemma proth_divisor_bound:
  fixes N k n a r :: nat
  assumes N: "N = k * 2 ^ n + 1" and n: "0 < n"
    and cert: "a ^ (k * 2 ^ (n - 1)) mod N = N - 1"
    and r: "r dvd N" "1 < r"
  shows "2 ^ n < r"
proof -
  define b where "b = a ^ k"
  define c where "c = b ^ (2 ^ (n - 1))"
  have c_alt: "c = a ^ (k * 2 ^ (n - 1))" by (simp add: c_def b_def power_mult)
  have Npos: "0 < N" using N by simp
  have "c mod r = (c mod N) mod r" using r(1) by (simp add: mod_mod_cancel)
  also have "\<dots> = (N - 1) mod r" using cert c_alt by simp
  also have "\<dots> = r - 1" by (rule pred_mod_of_dvd [OF r(1) Npos r(2)])
  finally have cr: "c mod r = r - 1" .
  have "odd N" using N n by simp
  then have oddr: "odd r" using r(1) by (meson dvd_trans)
  have cc: "(c * c) mod r = 1"
  proof -
    have "(c * c) mod r = ((c mod r) * (c mod r)) mod r" by (simp add: mod_mult_eq)
    also have "\<dots> = 1" unfolding cr using r(2) by (rule pred_sq_mod)
    finally show ?thesis .
  qed
  have pow_c: "c ^ j mod r = r - 1" if "odd j" for j
  proof -
    from that obtain h where h: "j = 2 * h + 1" by (auto elim: oddE)
    have "c ^ j = (c * c) ^ h * c" by (simp add: h power_mult power2_eq_square)
    then have "c ^ j mod r = (((c * c) mod r) ^ h mod r * (c mod r)) mod r"
      by (simp add: mod_mult_eq power_mod)
    also have "\<dots> = (r - 1) mod r" using r(2) by (simp add: cc cr)
    also have "\<dots> = r - 1" using r(2) by simp
    finally show ?thesis .
  qed
  have two_n: "(2::nat) ^ n = 2 ^ (n - 1) + 2 ^ (n - 1)" using n by (cases n) simp_all
  have "b ^ (2 ^ n) = c * c" by (simp only: c_def two_n power_add)
  then have b2n: "b ^ (2 ^ n) mod r = 1" using cc by simp
  have no_order: False if t: "b ^ t mod r = 1" "0 < t" "t < 2 ^ n" for t
  proof -
    from t(2) obtain j m where jm: "odd j" "t = j * 2 ^ m" using factor_twos [of t] by auto
    have "(2::nat) ^ m \<le> t" using jm by (cases j) simp_all
    from this t(3) have "(2::nat) ^ m < 2 ^ n" by (rule le_less_trans)
    then have mn: "m < n" by simp
    define d where "d = n - 1 - m"
    have nd: "n - 1 = m + d" using mn by (simp add: d_def)
    have p: "(2::nat) ^ (n - 1) = 2 ^ m * 2 ^ d" by (simp only: nd power_add)
    have e: "t * 2 ^ d = 2 ^ (n - 1) * j" by (simp only: jm p mult_ac)
    have "(b ^ t) ^ (2 ^ d) = c ^ j" by (simp only: c_def power_mult [symmetric] e)
    then have "c ^ j mod r = ((b ^ t) mod r) ^ (2 ^ d) mod r" by (simp add: power_mod)
    also have "\<dots> = 1" using t(1) r(2) by simp
    finally have "r - 1 = 1" using pow_c [OF jm(1)] by simp
    then have "r = 2" using r(2) by simp
    with oddr show False by simp
  qed
  have no_coll: False if ij: "i < j" "j < 2 ^ n" "b ^ i mod r = b ^ j mod r" for i j
  proof -
    define t where "t = j - i"
    define u where "u = 2 ^ n - i"
    have e1: "b ^ i * b ^ u = b ^ (2 ^ n)" using ij by (simp add: u_def power_add [symmetric])
    have "j + u = t + 2 ^ n" using ij by (simp add: t_def u_def)
    then have e2: "b ^ j * b ^ u = b ^ t * b ^ (2 ^ n)" by (simp add: power_add [symmetric])
    have "(b ^ i * b ^ u) mod r = (b ^ j * b ^ u) mod r"
      using ij(3) by (rule mod_mult_cong) simp
    then have "b ^ (2 ^ n) mod r = (b ^ t * b ^ (2 ^ n)) mod r" by (simp only: e1 e2)
    also have "\<dots> = ((b ^ t mod r) * (b ^ (2 ^ n) mod r)) mod r" by (simp add: mod_mult_eq)
    also have "\<dots> = b ^ t mod r" by (simp add: b2n)
    finally have "b ^ t mod r = 1" using b2n by simp
    moreover have "0 < t" "t < 2 ^ n" using ij by (simp_all add: t_def)
    ultimately show False by (rule no_order)
  qed
  have inj: "inj_on (\<lambda>i. b ^ i mod r) {0..<2 ^ n}"
  proof (rule inj_onI)
    fix i j
    assume "i \<in> {0..<2 ^ n}" "j \<in> {0..<2 ^ n}" "b ^ i mod r = b ^ j mod r"
    then show "i = j"
      using no_coll [of i j] no_coll [of j i] by (cases i j rule: linorder_cases) simp_all
  qed
  have nz: "b ^ i mod r \<noteq> 0" if "i < 2 ^ n" for i
  proof
    assume z: "b ^ i mod r = 0"
    have "b ^ (2 ^ n) = b ^ i * b ^ (2 ^ n - i)" using that by (simp add: power_add [symmetric])
    then have "b ^ (2 ^ n) mod r = ((b ^ i mod r) * (b ^ (2 ^ n - i) mod r)) mod r"
      by (simp add: mod_mult_eq)
    with z b2n show False by simp
  qed
  have sub: "(\<lambda>i. b ^ i mod r) ` {0..<2 ^ n} \<subseteq> {1..<r}"
  proof
    fix y
    assume "y \<in> (\<lambda>i. b ^ i mod r) ` {0..<2 ^ n}"
    then obtain i where i: "i < 2 ^ n" "y = b ^ i mod r" by auto
    with nz [OF i(1)] r(2) show "y \<in> {1..<r}" by (simp add: Suc_le_eq)
  qed
  have "card {0..<(2::nat) ^ n} \<le> card {1..<r}"
    using inj sub by (rule card_inj_on_le) simp
  then show ?thesis using r(2) by simp
qed

lemma proth_euclid:
  fixes N k n a x y :: nat
  assumes N: "N = k * 2 ^ n + 1" and n: "0 < n" and k: "k < 2 ^ n"
    and cert: "a ^ (k * 2 ^ (n - 1)) mod N = N - 1"
    and xy: "x < N" "y < N" "N dvd x * y"
  shows "x = 0 \<or> y = 0"
proof (rule ccontr)
  assume "\<not> (x = 0 \<or> y = 0)"
  then have x0: "0 < x" and y0: "0 < y" by simp_all
  define g where "g = gcd N x"
  have gN: "g dvd N" and gx: "g dvd x" by (simp_all add: g_def)
  have gle: "g \<le> x" using gx x0 by (rule dvd_imp_le)
  have gpos: "0 < g" using x0 by (simp add: g_def)
  have "g = 1"
  proof (rule ccontr)
    assume "g \<noteq> 1"
    with gpos have g1: "1 < g" by simp
    from gN obtain e where e: "N = g * e" by (auto elim: dvdE)
    have "e dvd N" by (simp add: e)
    moreover have "1 < e"
    proof (rule ccontr)
      assume "\<not> 1 < e"
      then have "e = 0 \<or> e = 1" by auto
      with e N gle xy(1) show False by auto
    qed
    ultimately have be: "2 ^ n < e" by (rule proth_divisor_bound [OF N n cert])
    have bg: "2 ^ n < g" using gN g1 by (rule proth_divisor_bound [OF N n cert])
    have "(2 ^ n + 1) * (2 ^ n + 1) \<le> g * e"
      using be bg by (intro mult_mono) simp_all
    also have "\<dots> = k * 2 ^ n + 1" using e N by simp
    also have "\<dots> \<le> 2 ^ n * 2 ^ n + 1" using k by simp
    finally show False by (simp add: algebra_simps)
  qed
  then have "coprime N x" by (simp add: g_def coprime_iff_gcd_eq_1)
  with xy(3) have "N dvd y" by (simp add: coprime_dvd_mult_right_iff)
  with y0 have "N \<le> y" by (rule dvd_imp_le [rotated])
  with xy(2) show False by simp
qed


section \<open>The coarse-reduction loop on the additive branch\<close>

lemma u64_id: "x < 2 ^ 64 \<Longrightarrow> u64 x = x"
  by (simp add: u64_def)

lemma u32_id: "x < 2 ^ 32 \<Longrightarrow> u32 x = x"
  by (simp add: u32_def)

lemma approx_quotient_le:
  fixes r A M E s k Q c' :: nat
  assumes A: "A = M * E" and Q: "Q = s * E + 1" and sk: "s + k = M"
    and c': "k * E = c' + 1" and e: "k * Q \<le> M * c'" and M: "0 < M"
  shows "(r div A + k * (r div (A * M))) * Q \<le> r"
proof -
  define u where "u = r div A"
  define v where "v = r div (A * M)"
  have "v = u div M" by (simp add: u_def v_def div_mult2_eq)
  then have Mv: "M * v \<le> u" by simp
  have "k * v * Q = v * (k * Q)" by (simp add: mult_ac)
  also have "\<dots> \<le> v * (M * c')" using e by (rule mult_left_mono) simp
  also have "\<dots> = (M * v) * c'" by (simp add: mult_ac)
  also have "\<dots> \<le> u * c'" using Mv by (rule mult_right_mono) simp
  finally have kv: "k * v * Q \<le> u * c'" .
  have "Q + c' = s * E + k * E" by (simp add: Q c')
  also have "\<dots> = A" by (simp add: A sk [symmetric] algebra_simps)
  finally have Qc: "Q + c' = A" .
  have "(u + k * v) * Q = u * Q + k * v * Q" by (simp add: algebra_simps)
  also have "\<dots> \<le> u * Q + u * c'" using kv by simp
  also have "\<dots> = u * A" by (simp add: Qc [symmetric] algebra_simps)
  also have "\<dots> \<le> r" by (simp add: u_def mult.commute)
  finally show ?thesis by (simp add: u_def v_def)
qed

lemma gm_step_general:
  fixes p q k s Q r :: nat
  assumes par: "exponent_p params = int p" "coefficient_k params = int k"
      "shift_q params = int q"
    and pq: "0 < q" "q \<le> p" "p < 32"
    and Q: "Q = s * 2 ^ q + 1" and sk: "s + k = 2 ^ (p - q)" and k: "0 < k"
    and e: "k * Q + 2 ^ (p - q) \<le> k * 2 ^ p"
    and r: "r < 2 ^ 64"
  shows "gm_step params Q r = Inr (r - (r div 2 ^ p + k * (r div 2 ^ (2 * p - q))) * Q)"
    and "(r div 2 ^ p + k * (r div 2 ^ (2 * p - q))) * Q \<le> r"
proof -
  define A :: nat where "A = 2 ^ p"
  define M :: nat where "M = 2 ^ (p - q)"
  define E :: nat where "E = 2 ^ q"
  define u where "u = r div 2 ^ p"
  define v where "v = r div 2 ^ (2 * p - q)"
  define C where "C = u + k * v"
  have AME: "A = M * E" using pq by (simp add: A_def M_def E_def power_add [symmetric])
  have AM: "A * M = 2 ^ (2 * p - q)" using pq by (simp add: A_def M_def power_add [symmetric])
  have E2: "2 \<le> E" using pq by (cases q) (simp_all add: E_def)
  have kE: "1 \<le> k * E" using k E2 by (cases k) simp_all
  define c' where "c' = k * E - 1"
  have c': "k * E = c' + 1" using kE by (simp add: c'_def)
  have QE: "Q = s * E + 1" by (simp add: Q E_def)
  have skM: "s + k = M" by (simp add: sk M_def)
  have "k * A = M * (k * E)" by (simp add: AME mult_ac)
  also have "\<dots> = M * (c' + 1)" by (simp only: c')
  also have "\<dots> = M * c' + M" by simp
  finally have "M * c' + M = k * A" by simp
  moreover have "k * Q + M \<le> k * A" using e by (simp add: M_def A_def)
  ultimately have e': "k * Q \<le> M * c'" by simp
  have Mpos: "0 < M" by (simp add: M_def)
  have CQ: "C * Q \<le> r"
    unfolding C_def u_def v_def
    by (rule approx_quotient_le [OF AME QE skM c' e' Mpos, unfolded AM, unfolded A_def])
  have Qpos: "0 < Q" by (simp add: Q)
  have CleCQ: "C \<le> C * Q" using Qpos by (cases Q) simp_all
  have C64: "C < 2 ^ 64" using CleCQ CQ r by linarith
  have kv64: "k * v < 2 ^ 64" using C64 by (simp add: C_def)
  have "Q + c' = s * E + k * E" by (simp add: QE c')
  also have "\<dots> = A" by (simp add: AME skM [symmetric] algebra_simps)
  finally have QcA: "Q + c' = A" .
  then have QA: "Q \<le> A" by simp
  have A31: "A \<le> 2 ^ 31" unfolding A_def using pq by (intro power_increasing) simp_all
  then have A64: "A < 2 ^ 64" by simp
  have "k \<le> k * E" using E2 by (cases E) simp_all
  also have "\<dots> \<le> Q + c' + 1" by (simp add: c')
  finally have "k \<le> A + 1" using QcA by simp
  with A31 have "k < 2 ^ 64" by simp
  then have "k mod 2 ^ 64 = k" by simp
  moreover have "int k mod 2 ^ 64 = int (k mod 2 ^ 64)" by (simp add: zmod_int)
  ultimately have k64: "int_to_u64 (int k) = k" by (simp only: int_to_u64_def nat_int)
  have sE: "Q div E = s"
  proof (rule div_nat_eqI)
    show "E * s \<le> Q" by (simp add: QE)
    show "Q < E * Suc s" using E2 by (simp add: QE mult.commute)
  qed
  have CsE: "C * s * E + C = C * Q" by (simp add: QE algebra_simps)
  have Cs: "C * s \<le> C * s * E" using E2 by (cases E) simp_all
  have CsE64: "C * s * E < 2 ^ 64" using CsE CQ r by linarith
  have Cs64: "C * s < 2 ^ 64" using Cs CsE64 by linarith
  have CQ64: "C * s * E + C < 2 ^ 64" using CsE CQ r by linarith
  have h1: "nat (exponent_p params) = p" by (simp add: par)
  have "2 * int p - int q = int (2 * p - q)" using pq by simp
  then have h2: "nat (2 * exponent_p params - shift_q params) = 2 * p - q"
    by (simp only: par nat_int)
  have h3: "nat (shift_q params) = q" by (simp add: par)
  have guard: "0 \<le> exponent_p params \<and> exponent_p params < 32
      \<and> 0 \<le> 2 * exponent_p params - shift_q params
      \<and> 2 * exponent_p params - shift_q params < 64
      \<and> 0 \<le> shift_q params \<and> shift_q params < 32"
    using pq by (simp add: par)
  have branch: "\<not> Q > 2 ^ p" using QA by (simp add: A_def)
  have Cres: "u64 (u + u64 (int_to_u64 (coefficient_k params) * v)) = C"
    using kv64 C64 by (simp add: par k64 u64_id C_def)
  have step2: "u64 (u64 (C * (Q div 2 ^ q)) * 2 ^ q) = C * s * E"
    using Cs64 CsE64 sE by (simp add: u64_id E_def)
  have sub: "sub_u64 r (u64 (C * s * E + C)) = r - C * Q"
    using CQ64 CQ r by (simp add: u64_id CsE sub_u64_eq)
  have "gm_step params Q r = Inr (r - C * Q)"
    unfolding gm_step_def Let_def h1 h2 h3 u_def [symmetric] v_def [symmetric]
    using guard branch by (simp add: Cres step2 sub)
  then show "gm_step params Q r = Inr (r - (r div 2 ^ p + k * (r div 2 ^ (2 * p - q))) * Q)"
    by (simp only: C_def u_def v_def)
  show "(r div 2 ^ p + k * (r div 2 ^ (2 * p - q))) * Q \<le> r"
    using CQ by (simp only: C_def u_def v_def)
qed

lemma sub_multiple_mod:
  fixes r C Q :: nat
  assumes "C * Q \<le> r"
  shows "(r - C * Q) mod Q = r mod Q"
proof -
  have "r = (r - C * Q) + C * Q" using assms by simp
  then have "r mod Q = ((r - C * Q) + C * Q) mod Q" by simp
  then show ?thesis by (simp only: mod_mult_self1)
qed

lemma gm_loop_general:
  fixes p q k s Q r :: nat
  assumes par: "exponent_p params = int p" "coefficient_k params = int k"
      "shift_q params = int q"
    and pq: "0 < q" "q \<le> p" "p < 32"
    and Q: "Q = s * 2 ^ q + 1" and sk: "s + k = 2 ^ (p - q)" and k: "0 < k"
    and e: "k * Q + 2 ^ (p - q) \<le> k * 2 ^ p"
    and Q2: "2 ^ p \<le> 2 * Q" "2 * Q < 2 ^ 32"
    and r: "r < 2 ^ 64"
  shows "\<exists>r'. gm_loop params Q r = Some (Inr r') \<and> r' \<le> 2 * Q \<and> r' \<le> r
    \<and> r' mod Q = r mod Q"
  using r
proof (induction r rule: less_induct)
  case (less r)
  have bound: "u32 (2 * Q) = 2 * Q" using Q2(2) by (rule u32_id)
  show ?case
  proof (cases "2 * Q < r")
    case False
    then have "gm_loop params Q r = Some (Inr r)"
      by (subst gm_loop.simps) (simp add: bound)
    with False show ?thesis by simp
  next
    case True
    define C where "C = r div 2 ^ p + k * (r div 2 ^ (2 * p - q))"
    have step: "gm_step params Q r = Inr (r - C * Q)" and CQ: "C * Q \<le> r"
      unfolding C_def
      using gm_step_general [OF par pq Q sk k e less.prems] by simp_all
    have "2 ^ p \<le> r" using True Q2(1) by linarith
    then have "1 \<le> r div 2 ^ p" by (simp add: div_greater_zero_iff Suc_le_eq)
    then have C1: "1 \<le> C" by (simp add: C_def)
    have Qpos: "0 < Q" by (simp add: Q)
    have "Q \<le> C * Q" using C1 by (cases C) simp_all
    with Qpos CQ have lt: "r - C * Q < r" by linarith
    then have "r - C * Q < 2 ^ 64" using less.prems by linarith
    from less.IH [OF lt this] obtain r' where r':
      "gm_loop params Q (r - C * Q) = Some (Inr r')" "r' \<le> 2 * Q" "r' \<le> r - C * Q"
      "r' mod Q = (r - C * Q) mod Q" by blast
    have "gm_loop params Q r = gm_loop params Q (r - C * Q)"
      using True by (subst gm_loop.simps) (simp add: bound step)
    moreover have "r' mod Q = r mod Q" using r'(4) CQ by (simp only: sub_multiple_mod)
    moreover have "r' \<le> r" using r'(3) by simp
    ultimately show ?thesis using r'(1,2) by simp
  qed
qed

lemma GeneralizedMersenneReduce_general:
  fixes s c q Q w a b :: nat
  assumes s: "odd s" "3 \<le> s" and c: "s \<le> 2 ^ c" "2 ^ c < 2 * s" and qc: "q + c < 31"
    and q: "0 < q" and Q: "Q = s * 2 ^ q + 1" and sq: "s < 2 ^ q"
    and e: "(2 ^ c - s) * Q + 2 ^ c \<le> (2 ^ c - s) * 2 ^ (q + c)"
    and cert: "w ^ (s * 2 ^ (q - 1)) mod Q = Q - 1"
    and ab: "a < Q" "b < Q"
  shows "GeneralizedMersenneReduce a b Q = Some (Inr (a * b mod Q))"
proof -
  define p where "p = q + c"
  define k where "k = 2 ^ c - s"
  define params where "params = \<lparr>exponent_p = int p, coefficient_k = int k, shift_q = int q,
    modulus_R = 2 ^ p, is_valid = True\<rparr>"
  have qc32: "q + c < 32" using qc by simp
  have D: "DecomposePrime Q = Some (Inr params)"
    unfolding params_def p_def k_def by (rule DecomposePrime_general [OF s c qc32 Q])
  have par: "exponent_p params = int p" "coefficient_k params = int k"
    "shift_q params = int q" "is_valid params" by (simp_all add: params_def)
  have pq: "0 < q" "q \<le> p" "p < 32" using q qc by (simp_all add: p_def)
  have "odd ((2::nat) ^ c) \<longleftrightarrow> c = 0" by simp
  with s c have "s \<noteq> 2 ^ c" by (cases c) auto
  with c have slt: "s < 2 ^ c" by simp
  have sk: "s + k = 2 ^ (p - q)" using slt by (simp add: k_def p_def)
  have k: "0 < k" using slt by (simp add: k_def)
  have e': "k * Q + 2 ^ (p - q) \<le> k * 2 ^ p" using e by (simp add: k_def p_def)
  have "(2::nat) ^ p = 2 ^ c * 2 ^ q" by (simp add: p_def power_add)
  also have "\<dots> \<le> 2 * s * 2 ^ q" using c by (intro mult_right_mono) simp_all
  also have "\<dots> \<le> 2 * Q" by (simp add: Q)
  finally have Q2a: "2 ^ p \<le> 2 * Q" .
  have "s * 2 ^ q < 2 ^ c * 2 ^ q" using slt by simp
  also have "\<dots> = 2 ^ p" by (simp add: p_def power_add)
  also have "\<dots> \<le> (2::nat) ^ 30" unfolding p_def using qc by (intro power_increasing) simp_all
  finally have Q30: "Q \<le> 2 ^ 30" by (simp add: Q)
  then have Q2b: "2 * Q < 2 ^ 32" by simp
  have "a * b \<le> Q * Q" using ab by (intro mult_mono) simp_all
  also have "\<dots> \<le> 2 ^ 30 * 2 ^ 30" using Q30 by (intro mult_mono) simp_all
  finally have ab64: "a * b < 2 ^ 64" by simp
  from gm_loop_general [OF par(1-3) pq Q sk k e' Q2a Q2b ab64]
  obtain r' where r': "gm_loop params Q (a * b) = Some (Inr r')" "r' \<le> 2 * Q" "r' \<le> a * b"
    "r' mod Q = (a * b) mod Q" by blast
  have Qpos: "0 < Q" by (simp add: Q)
  have ne: "r' \<noteq> 2 * Q"
  proof
    assume eq: "r' = 2 * Q"
    then have "(a * b) mod Q = 0" using r'(4) by simp
    then have "Q dvd a * b" by (simp add: dvd_eq_mod_eq_0)
    with ab have "a = 0 \<or> b = 0" by (rule proth_euclid [OF Q q sq cert])
    then have "a * b = 0" by auto
    with r'(3) eq Qpos show False by simp
  qed
  with r'(2) have lt: "r' < 2 * Q" by simp
  define res where "res = (if r' \<ge> Q then sub_u64 r' Q else r')"
  have "r' < 2 ^ 64" using lt Q2b by simp
  then have res: "res = (if Q \<le> r' then r' - Q else r')"
    by (simp add: res_def sub_u64_eq)
  have resQ: "res < Q" using lt by (auto simp add: res)
  have "res mod Q = r' mod Q"
    using sub_multiple_mod [of 1 Q r'] by (simp add: res)
  with resQ r'(4) have "res = a * b mod Q" by simp
  moreover have "u32 res = res" using resQ Q2b by (intro u32_id) simp
  ultimately show ?thesis
    using D par(4) r'(1) ab64
    by (simp add: GeneralizedMersenneReduce_def u64_id res_def [symmetric])
qed

lemma cert_3329: "(3::nat) ^ (13 * 2 ^ (8 - 1)) mod 3329 = 3329 - 1"
  unfolding modpow_eq [symmetric] by (simp add: modpow.simps)

lemma cert_7681: "(13::nat) ^ (15 * 2 ^ (9 - 1)) mod 7681 = 7681 - 1"
  unfolding modpow_eq [symmetric] by (simp add: modpow.simps)

lemma cert_12289: "(11::nat) ^ (3 * 2 ^ (12 - 1)) mod 12289 = 12289 - 1"
  unfolding modpow_eq [symmetric] by (simp add: modpow.simps)

lemma cert_8380417: "(5::nat) ^ (1023 * 2 ^ (13 - 1)) mod 8380417 = 8380417 - 1"
  unfolding modpow_eq [symmetric] by (simp add: modpow.simps)

lemma cert_8404993: "(5::nat) ^ (513 * 2 ^ (14 - 1)) mod 8404993 = 8404993 - 1"
  unfolding modpow_eq [symmetric] by (simp add: modpow.simps)

lemma cert_1073479681: "(11::nat) ^ (4095 * 2 ^ (18 - 1)) mod 1073479681 = 1073479681 - 1"
  unfolding modpow_eq [symmetric] by (simp add: modpow.simps)

lemma cert_65537: "(3::nat) ^ (1 * 2 ^ (16 - 1)) mod 65537 = 65537 - 1"
  unfolding modpow_eq [symmetric] by (simp add: modpow.simps)

lemma gm_3329: "a < 3329 \<Longrightarrow> b < 3329 \<Longrightarrow> GeneralizedMersenneReduce a b 3329 = Some (Inr (a * b mod 3329))"
  by (rule GeneralizedMersenneReduce_general [where s = 13 and c = 4 and q = 8 and w = 3, OF _ _ _ _ _ _ _ _ _ cert_3329]) simp_all

lemma gm_7681: "a < 7681 \<Longrightarrow> b < 7681 \<Longrightarrow> GeneralizedMersenneReduce a b 7681 = Some (Inr (a * b mod 7681))"
  by (rule GeneralizedMersenneReduce_general [where s = 15 and c = 4 and q = 9 and w = 13, OF _ _ _ _ _ _ _ _ _ cert_7681]) simp_all

lemma gm_12289: "a < 12289 \<Longrightarrow> b < 12289 \<Longrightarrow> GeneralizedMersenneReduce a b 12289 = Some (Inr (a * b mod 12289))"
  by (rule GeneralizedMersenneReduce_general [where s = 3 and c = 2 and q = 12 and w = 11, OF _ _ _ _ _ _ _ _ _ cert_12289]) simp_all

lemma gm_8380417: "a < 8380417 \<Longrightarrow> b < 8380417 \<Longrightarrow> GeneralizedMersenneReduce a b 8380417 = Some (Inr (a * b mod 8380417))"
  by (rule GeneralizedMersenneReduce_general [where s = 1023 and c = 10 and q = 13 and w = 5, OF _ _ _ _ _ _ _ _ _ cert_8380417]) simp_all

lemma gm_8404993: "a < 8404993 \<Longrightarrow> b < 8404993 \<Longrightarrow> GeneralizedMersenneReduce a b 8404993 = Some (Inr (a * b mod 8404993))"
  by (rule GeneralizedMersenneReduce_general [where s = 513 and c = 10 and q = 14 and w = 5, OF _ _ _ _ _ _ _ _ _ cert_8404993]) simp_all

lemma gm_1073479681: "a < 1073479681 \<Longrightarrow> b < 1073479681 \<Longrightarrow> GeneralizedMersenneReduce a b 1073479681 = Some (Inr (a * b mod 1073479681))"
  by (rule GeneralizedMersenneReduce_general [where s = 4095 and c = 12 and q = 18 and w = 11, OF _ _ _ _ _ _ _ _ _ cert_1073479681]) simp_all

section \<open>The coarse-reduction loop for 65537\<close>

text \<open>
  For \<open>Q = 65537\<close> the subtractive branch is taken. Below \<open>2 ^ 31\<close> the approximate
  quotient is \<open>residual div 2 ^ 16\<close>, which exceeds the true quotient whenever the low
  half-word of the residual is smaller than the high one; the subtraction then wraps
  around \<open>2 ^ 64\<close> and the loop needs three more passes to come back below \<open>2 * Q\<close>.
\<close>

lemma gm_loop_step:
  "u32 (2 * Q) < r \<Longrightarrow> gm_step params Q r = Inr r' \<Longrightarrow>
    gm_loop params Q r = gm_loop params Q r'"
  by (subst gm_loop.simps) simp

lemma gm_loop_exit:
  "\<not> u32 (2 * Q) < r \<Longrightarrow> gm_loop params Q r = Some (Inr r)"
  by (subst gm_loop.simps) simp

lemma gm_step_65537:
  "gm_step fermat_params 65537 r =
    Inr (sub_u64 r (u64 (u64 (u64 (sub_u64 (r div 65536) (r div 2147483648) * 32768) * 2)
      + sub_u64 (r div 65536) (r div 2147483648))))"
  by (simp add: gm_step_def fermat_params_def Let_def)

lemma step2_65537: "u64 (u64 (u64 (C * 32768) * 2) + C) = u64 (C * 65537)"
proof -
  have "(((C * 32768) mod 2 ^ 64 * 2) mod 2 ^ 64 + C) mod 2 ^ 64 = (C * 32768 * 2 + C) mod 2 ^ 64"
    by (simp add: mod_simps)
  also have "C * 32768 * 2 + C = C * 65537" by simp
  finally show ?thesis by (simp only: u64_def)
qed

lemma fermat_step:
  assumes C: "sub_u64 (r div 65536) (r div 2147483648) = C"
    and X: "u64 (C * 65537) = X" and r': "sub_u64 r X = r'"
  shows "gm_step fermat_params 65537 r = Inr r'"
  by (simp only: gm_step_65537 step2_65537 C X r')

lemma fermat_step_low:
  assumes r: "r < 2147483648"
  shows "gm_step fermat_params 65537 r =
    Inr (if r div 65536 \<le> r mod 65536 then r mod 65536 - r div 65536
         else 18446744073709551616 - (r div 65536 - r mod 65536))"
proof -
  define h where "h = r div 65536"
  define l where "l = r mod 65536"
  have rhl: "r = 65536 * h + l" by (simp add: h_def l_def)
  have l: "l < 65536" by (simp add: l_def)
  have h: "h < 32768" using r by (simp add: h_def div_less_iff_less_mult)
  have t: "r div 2147483648 = 0" using r by simp
  have C: "sub_u64 (r div 65536) (r div 2147483648) = h"
    using h by (simp add: t h_def [symmetric] sub_u64_def)
  have X: "u64 (h * 65537) = h * 65537" using h by (intro u64_id) simp
  have "sub_u64 r (h * 65537) =
    (if h \<le> l then l - h else 18446744073709551616 - (h - l))"
  proof (cases "h \<le> l")
    case True
    then have "h * 65537 \<le> r" using rhl by simp
    moreover have "r < 2 ^ 64" using r by simp
    ultimately have "sub_u64 r (h * 65537) = r - h * 65537" by (intro sub_u64_eq)
    with True rhl show ?thesis by simp
  next
    case False
    then have "r + 2 ^ 64 - h * 65537 = 18446744073709551616 - (h - l)"
      using rhl h l by simp
    moreover have "18446744073709551616 - (h - l) < (2::nat) ^ 64" using False by simp
    ultimately show ?thesis using False by (simp add: sub_u64_def)
  qed
  then show ?thesis
    unfolding h_def [symmetric] l_def [symmetric] by (intro fermat_step [OF C X])
qed

lemma fermat_step_high:
  assumes r: "2147483648 \<le> r" "r < 4294967296"
  shows "gm_step fermat_params 65537 r = Inr (r mod 65536 + 65537 - r div 65536)"
proof -
  define h where "h = r div 65536"
  define l where "l = r mod 65536"
  have rhl: "r = 65536 * h + l" by (simp add: h_def l_def)
  have l: "l < 65536" by (simp add: l_def)
  have h: "h < 65536" "32768 \<le> h"
    using r by (simp_all add: h_def div_less_iff_less_mult less_eq_div_iff_mult_less_eq)
  have t: "r div 2147483648 = 1" using r by (intro div_nat_eqI) simp_all
  have C: "sub_u64 (r div 65536) (r div 2147483648) = h - 1"
    using h by (simp add: t h_def [symmetric] sub_u64_eq)
  have X: "u64 ((h - 1) * 65537) = (h - 1) * 65537" using h by (intro u64_id) simp
  have "(h - 1) * 65537 \<le> r" using rhl h by (simp add: algebra_simps)
  moreover have "r < 2 ^ 64" using r by simp
  ultimately have "sub_u64 r ((h - 1) * 65537) = r - (h - 1) * 65537" by (intro sub_u64_eq)
  also have "\<dots> = l + 65537 - h" using rhl h by (simp add: algebra_simps)
  finally show ?thesis
    unfolding h_def [symmetric] l_def [symmetric] by (intro fermat_step [OF C X])
qed

lemma fermat_wrap1:
  assumes d: "1 \<le> d" "d \<le> 32767"
  shows "gm_step fermat_params 65537 (18446744073709551616 - d) = Inr (281483566645248 - d)"
proof -
  define r where "r = 18446744073709551616 - d"
  have h: "r div 65536 = 281474976710655"
    using d by (intro div_nat_eqI) (simp_all add: r_def)
  have t: "r div 2147483648 = 8589934591"
    using d by (intro div_nat_eqI) (simp_all add: r_def)
  have C: "sub_u64 (r div 65536) (r div 2147483648) = 281466386776064"
    by (simp add: h t sub_u64_def)
  have X: "u64 (281466386776064 * 65537) = 18446462590142906368" by (simp add: u64_def)
  have "sub_u64 r 18446462590142906368 = r - 18446462590142906368"
    using d by (intro sub_u64_eq) (simp_all add: r_def)
  also have "\<dots> = 281483566645248 - d" using d by (simp add: r_def)
  finally show ?thesis unfolding r_def [symmetric] by (intro fermat_step [OF C X])
qed

lemma fermat_wrap2:
  assumes d: "1 \<le> d" "d \<le> 32767"
  shows "gm_step fermat_params 65537 (281483566645248 - d) = Inr (4295229444 - d)"
proof -
  define r where "r = 281483566645248 - d"
  have h: "r div 65536 = 4295098367"
    using d by (intro div_nat_eqI) (simp_all add: r_def)
  have t: "r div 2147483648 = 131075"
    using d by (intro div_nat_eqI) (simp_all add: r_def)
  have C: "sub_u64 (r div 65536) (r div 2147483648) = 4294967292"
    by (simp add: h t sub_u64_def)
  have X: "u64 (4294967292 * 65537) = 281479271415804" by (simp add: u64_def)
  have "sub_u64 r 281479271415804 = r - 281479271415804"
    using d by (intro sub_u64_eq) (simp_all add: r_def)
  also have "\<dots> = 4295229444 - d" using d by (simp add: r_def)
  finally show ?thesis unfolding r_def [symmetric] by (intro fermat_step [OF C X])
qed

lemma fermat_wrap3:
  assumes d: "1 \<le> d" "d \<le> 32767"
  shows "gm_step fermat_params 65537 (4295229444 - d) =
    Inr (if d \<le> 4 then 65538 - d else 131075 - d)"
proof -
  define r where "r = 4295229444 - d"
  have t: "r div 2147483648 = 2"
    using d by (intro div_nat_eqI) (simp_all add: r_def)
  show ?thesis
  proof (cases "d \<le> 4")
    case True
    have h: "r div 65536 = 65540"
      using d True by (intro div_nat_eqI) (simp_all add: r_def)
    have C: "sub_u64 (r div 65536) (r div 2147483648) = 65538"
      by (simp add: h t sub_u64_def)
    have X: "u64 (65538 * 65537) = 4295163906" by (simp add: u64_def)
    have "sub_u64 r 4295163906 = r - 4295163906"
      using d True by (intro sub_u64_eq) (simp_all add: r_def)
    also have "\<dots> = (if d \<le> 4 then 65538 - d else 131075 - d)"
      using d True by (simp add: r_def)
    finally show ?thesis unfolding r_def [symmetric] by (intro fermat_step [OF C X])
  next
    case False
    have h: "r div 65536 = 65539"
      using d False by (intro div_nat_eqI) (simp_all add: r_def)
    have C: "sub_u64 (r div 65536) (r div 2147483648) = 65537"
      by (simp add: h t sub_u64_def)
    have X: "u64 (65537 * 65537) = 4295098369" by (simp add: u64_def)
    have "sub_u64 r 4295098369 = r - 4295098369"
      using d False by (intro sub_u64_eq) (simp_all add: r_def)
    also have "\<dots> = (if d \<le> 4 then 65538 - d else 131075 - d)"
      using d False by (simp add: r_def)
    finally show ?thesis unfolding r_def [symmetric] by (intro fermat_step [OF C X])
  qed
qed

lemma fermat_step_top:
  "gm_step fermat_params 65537 4294967296 = Inr 65538"
  by (rule fermat_step [where C = 65534 and X = 4294901758]) (simp_all add: sub_u64_def u64_def)

lemma gm_loop_65537_exit:
  "r \<le> 131074 \<Longrightarrow> gm_loop fermat_params 65537 r = Some (Inr r)"
  by (rule gm_loop_exit) (simp add: u32_def)

lemma gm_loop_65537_step:
  "131074 < r \<Longrightarrow> gm_step fermat_params 65537 r = Inr r' \<Longrightarrow>
    gm_loop fermat_params 65537 r = gm_loop fermat_params 65537 r'"
  by (rule gm_loop_step) (simp_all add: u32_def)

lemma wrap_exit_bound:
  assumes d: "1 \<le> d" "d \<le> 32767"
  shows "(if d \<le> 4 then 65538 - d else 131075 - d) < (131074::nat)"
proof -
  define x where "x = (if d \<le> 4 then 65538 - d else 131075 - d)"
  have "x + d = (if d \<le> 4 then 65538 else 131075)" using d by (simp add: x_def)
  then have "x < 131074" using d by (simp split: if_splits)
  then show ?thesis by (simp only: x_def)
qed

lemma gm_loop_65537_wrap:
  assumes d: "1 \<le> d" "d \<le> 32767"
  shows "gm_loop fermat_params 65537 (18446744073709551616 - d) =
    Some (Inr (if d \<le> 4 then 65538 - d else 131075 - d))"
proof -
  have "gm_loop fermat_params 65537 (18446744073709551616 - d) =
      gm_loop fermat_params 65537 (281483566645248 - d)"
    using d by (intro gm_loop_65537_step fermat_wrap1) simp_all
  also have "\<dots> = gm_loop fermat_params 65537 (4295229444 - d)"
    using d by (intro gm_loop_65537_step fermat_wrap2) simp_all
  also have "\<dots> = gm_loop fermat_params 65537 (if d \<le> 4 then 65538 - d else 131075 - d)"
    using d by (intro gm_loop_65537_step fermat_wrap3) simp_all
  also have "\<dots> = Some (Inr (if d \<le> 4 then 65538 - d else 131075 - d))"
    using wrap_exit_bound [OF d] by (intro gm_loop_65537_exit) simp
  finally show ?thesis .
qed

lemma gm_loop_65537:
  assumes r: "r \<le> 4294967296"
  shows "\<exists>r'. gm_loop fermat_params 65537 r = Some (Inr r') \<and> r' \<le> 131074
    \<and> (r' = 131074 \<longrightarrow> r = 131074)"
proof -
  consider (small) "r \<le> 131074" | (low) "131074 < r" "r < 2147483648"
    | (high) "2147483648 \<le> r" "r < 4294967296" | (top) "r = 4294967296"
    using r by linarith
  then show ?thesis
  proof cases
    case small
    then show ?thesis by (simp add: gm_loop_65537_exit)
  next
    case low
    define h where "h = r div 65536"
    define l where "l = r mod 65536"
    have l: "l < 65536" by (simp add: l_def)
    have h: "h < 32768" using low(2) by (simp add: h_def div_less_iff_less_mult)
    define r1 where "r1 = (if h \<le> l then l - h else 18446744073709551616 - (h - l))"
    have "gm_step fermat_params 65537 r = Inr r1"
      unfolding r1_def h_def l_def by (rule fermat_step_low [OF low(2)])
    with low(1) have eq: "gm_loop fermat_params 65537 r = gm_loop fermat_params 65537 r1"
      by (rule gm_loop_65537_step)
    show ?thesis
    proof (cases "h \<le> l")
      case True
      then have "r1 \<le> 65535" using l by (simp add: r1_def)
      then have "gm_loop fermat_params 65537 r1 = Some (Inr r1)" "r1 < 131074"
        by (simp_all add: gm_loop_65537_exit)
      with eq show ?thesis by simp
    next
      case False
      define d where "d = h - l"
      have d: "1 \<le> d" "d \<le> 32767" using False h by (simp_all add: d_def)
      have "r1 = 18446744073709551616 - d" using False by (simp add: r1_def d_def)
      with eq gm_loop_65537_wrap [OF d]
      have "gm_loop fermat_params 65537 r =
        Some (Inr (if d \<le> 4 then 65538 - d else 131075 - d))" by simp
      moreover have "(if d \<le> 4 then 65538 - d else 131075 - d) < 131074"
        using d by (rule wrap_exit_bound)
      ultimately show ?thesis by simp
    qed
  next
    case high
    define r1 where "r1 = r mod 65536 + 65537 - r div 65536"
    have "32768 \<le> r div 65536" using high(1) by (simp add: less_eq_div_iff_mult_less_eq)
    moreover have "r mod 65536 < 65536" by simp
    ultimately have r1: "r1 < 131074" unfolding r1_def by linarith
    have "gm_step fermat_params 65537 r = Inr r1"
      unfolding r1_def by (rule fermat_step_high [OF high])
    moreover have "131074 < r" using high(1) by simp
    ultimately have "gm_loop fermat_params 65537 r = gm_loop fermat_params 65537 r1"
      by (rule gm_loop_65537_step [rotated])
    also have "\<dots> = Some (Inr r1)" using r1 by (intro gm_loop_65537_exit) simp
    finally show ?thesis using r1 by simp
  next
    case top
    have "gm_loop fermat_params 65537 4294967296 = gm_loop fermat_params 65537 65538"
      by (rule gm_loop_65537_step [OF _ fermat_step_top]) simp
    also have "\<dots> = Some (Inr 65538)" by (rule gm_loop_65537_exit) simp
    finally show ?thesis using top by simp
  qed
qed

lemma GeneralizedMersenneReduce_65537_range:
  assumes ab: "a < 65537" "b < 65537"
  shows "\<exists>res. GeneralizedMersenneReduce a b 65537 = Some (Inr res) \<and> res < 65537"
proof -
  have "a * b \<le> 65536 * 65536" using ab by (intro mult_mono) simp_all
  then have ab32: "a * b \<le> 4294967296" by simp
  then have ab64: "u64 (a * b) = a * b" by (intro u64_id) simp
  from gm_loop_65537 [OF ab32] obtain r' where r':
    "gm_loop fermat_params 65537 (a * b) = Some (Inr r')" "r' \<le> 131074"
    "r' = 131074 \<longrightarrow> a * b = 131074" by blast
  have "r' \<noteq> 131074"
  proof
    assume "r' = 131074"
    with r'(3) have eq: "a * b = 2 * 65537" by simp
    then have dv: "65537 dvd a * b" by simp
    have N: "(65537::nat) = 1 * 2 ^ 16 + 1" and n: "0 < (16::nat)" and k: "(1::nat) < 2 ^ 16"
      by simp_all
    have "a = 0 \<or> b = 0" by (rule proth_euclid [OF N n k cert_65537 ab dv])
    with eq show False by auto
  qed
  with r'(2) have lt: "r' < 131074" by simp
  define res where "res = (if r' \<ge> 65537 then sub_u64 r' 65537 else r')"
  have "res = (if 65537 \<le> r' then r' - 65537 else r')"
    using lt by (simp add: res_def sub_u64_eq)
  then have resQ: "res < 65537" using lt by auto
  then have "u32 res = res" by (intro u32_id) simp
  moreover have "is_valid fermat_params" by (simp add: fermat_params_def)
  ultimately have "GeneralizedMersenneReduce a b 65537 = Some (Inr res)"
    using r'(1)
    by (simp add: GeneralizedMersenneReduce_def d65537_params ab64 res_def [symmetric])
  with resQ show ?thesis by simp
qed

text \<open>
  Claim C4. For every supported modulus \<open>Q\<close> and all \<open>a, b < Q\<close> the call returns a value
  in \<open>[0, Q)\<close>.
\<close>

theorem GeneralizedMersenneReduce_in_range:
  assumes "Q \<in> set supported_moduli" and "a < Q" and "b < Q"
  shows "\<exists>r. GeneralizedMersenneReduce a b Q = Some (Inr r) \<and> r < Q"
proof -
  from assms(1) consider "Q = 3329" | "Q = 7681" | "Q = 12289" | "Q = 65537"
    | "Q = 8380417" | "Q = 8404993" | "Q = 1073479681"
    by (auto simp add: supported_moduli_def)
  then show ?thesis
  proof cases
    case 1
    with assms(2,3) show ?thesis by (simp add: gm_3329)
  next
    case 2
    with assms(2,3) show ?thesis by (simp add: gm_7681)
  next
    case 3
    with assms(2,3) show ?thesis by (simp add: gm_12289)
  next
    case 4
    with assms(2,3) show ?thesis by (simp add: GeneralizedMersenneReduce_65537_range)
  next
    case 5
    with assms(2,3) show ?thesis by (simp add: gm_8380417)
  next
    case 6
    with assms(2,3) show ?thesis by (simp add: gm_8404993)
  next
    case 7
    with assms(2,3) show ?thesis by (simp add: gm_1073479681)
  qed
qed

theorem GeneralizedMersenneReduce_in_range_witness:
  "(3329::nat) \<in> set supported_moduli \<and> (412::nat) < 3329 \<and> (999::nat) < 3329
   \<and> (\<exists>r. GeneralizedMersenneReduce 412 999 3329 = Some (Inr r) \<and> r < 3329)"
  using GeneralizedMersenneReduce_in_range [of 3329 412 999]
  by (simp add: supported_moduli_def)

section \<open>The coarse-reduction loop at a wrapping input\<close>

text \<open>
  The operands \<open>a = 65536\<close>, \<open>b = 3\<close> are below \<open>Q = 65537\<close>. Their product \<open>196608\<close> has
  high half-word \<open>3\<close> and low half-word \<open>0\<close>, so the first pass through the loop subtracts
  \<open>3 * 65537 = 196611\<close> from \<open>196608\<close>.
\<close>

lemma gm_step_65537_196608:
  "gm_step fermat_params 65537 196608 = Inr 18446744073709551613"
  using fermat_step_low [of 196608] by simp

lemma gm_loop_65537_196608:
  "gm_loop fermat_params 65537 196608 = Some (Inr 65535)"
proof -
  have "gm_loop fermat_params 65537 196608 =
      gm_loop fermat_params 65537 (18446744073709551616 - 3)"
    by (rule gm_loop_65537_step) (simp_all add: gm_step_65537_196608)
  also have "\<dots> = Some (Inr 65535)" using gm_loop_65537_wrap [of 3] by simp
  finally show ?thesis .
qed

lemma gm_65537_65536_3: "GeneralizedMersenneReduce 65536 3 65537 = Some (Inr 65535)"
proof -
  have v: "is_valid fermat_params" by (simp add: fermat_params_def)
  have p: "u64 196608 = 196608" by (simp add: u64_def)
  have r: "u32 65535 = 65535" by (simp add: u32_def)
  show ?thesis
    unfolding GeneralizedMersenneReduce_def d65537_params
    using v by (simp add: p gm_loop_65537_196608 r)
qed

text \<open>
  Claim C3 fails in the code at \<open>Q = 65537\<close>, \<open>a = 65536\<close>, \<open>b = 3\<close>: the loop is entered
  with residual \<open>196608\<close> and its first iteration leaves the residual \<open>2 ^ 64 - 3\<close>, which is
  larger.
\<close>

theorem coarse_loop_residual_increases_at_65537:
  "DecomposePrime 65537 = Some (Inr fermat_params)
   \<and> u32 (2 * 65537) < u64 (65536 * 3)
   \<and> gm_step fermat_params 65537 (u64 (65536 * 3)) = Inr 18446744073709551613
   \<and> u64 (65536 * 3) < 18446744073709551613"
  by (simp add: d65537_params u32_def u64_def gm_step_65537_196608)

text \<open>
  Claim C8 fails in the code at the same input: \<open>Cres = 3\<close>, \<open>step2 = 196608\<close>, and
  \<open>step2 + step1 = 196611\<close> exceeds the residual \<open>196608\<close>, so \<open>residual -= step2 + step1\<close>
  wraps below zero.
\<close>

theorem subtraction_wraps_at_65537:
  "DecomposePrime 65537 = Some (Inr fermat_params)
   \<and> u64 (65536 * 3) = 196608
   \<and> sub_u64 (196608 div 2 ^ 16) (196608 div 2 ^ 31) = 3
   \<and> u64 (u64 (3 * (65537 div 2 ^ 1)) * 2 ^ 1) = 196608
   \<and> (196608::nat) < u64 (196608 + 3)
   \<and> gm_step fermat_params 65537 196608 = Inr (sub_u64 196608 (u64 (196608 + 3)))
   \<and> sub_u64 196608 (u64 (196608 + 3)) = 18446744073709551613"
  by (simp add: d65537_params gm_step_65537_196608 u64_def sub_u64_def)

text \<open>
  Claim C9 fails in the code at the same input: the decomposition of \<open>65537\<close> has
  \<open>shift_q = 1\<close> and \<open>65537 mod 2 = 1\<close>, yet the residual after the first iteration is not
  congruent to \<open>a * b\<close> modulo \<open>Q\<close>, and neither is the residual with which the loop exits.
\<close>

theorem congruence_broken_at_65537:
  "DecomposePrime 65537 = Some (Inr fermat_params)
   \<and> 1 \<le> shift_q fermat_params
   \<and> (65537::nat) mod 2 ^ nat (shift_q fermat_params) = 1
   \<and> gm_step fermat_params 65537 196608 = Inr 18446744073709551613
   \<and> (18446744073709551613::nat) mod 65537 \<noteq> 196608 mod 65537
   \<and> gm_loop fermat_params 65537 196608 = Some (Inr 65535)
   \<and> (65535::nat) mod 65537 \<noteq> 196608 mod 65537"
proof (intro conjI)
  show "DecomposePrime 65537 = Some (Inr fermat_params)" by (rule d65537_params)
  show "1 \<le> shift_q fermat_params" by (simp add: fermat_params_def)
  show "(65537::nat) mod 2 ^ nat (shift_q fermat_params) = 1" by (simp add: fermat_params_def)
  show "gm_step fermat_params 65537 196608 = Inr 18446744073709551613"
    by (rule gm_step_65537_196608)
  show "(18446744073709551613::nat) mod 65537 \<noteq> 196608 mod 65537" by simp
  show "gm_loop fermat_params 65537 196608 = Some (Inr 65535)"
    by (rule gm_loop_65537_196608)
  show "(65535::nat) mod 65537 \<noteq> 196608 mod 65537" by simp
qed

section \<open>CalculateBarrettParameter and BarrettReduce\<close>

lemma d7681: "DecomposePrime 7681 = Some (Inr \<lparr>exponent_p = 13, coefficient_k = 1, shift_q = 9, modulus_R = 8192, is_valid = True\<rparr>)"
  using DecomposePrime_general [of 15 4 9 7681] by simp

lemma d12289: "DecomposePrime 12289 = Some (Inr \<lparr>exponent_p = 14, coefficient_k = 1, shift_q = 12, modulus_R = 16384, is_valid = True\<rparr>)"
  using DecomposePrime_general [of 3 2 12 12289] by simp

lemma d8380417: "DecomposePrime 8380417 = Some (Inr \<lparr>exponent_p = 23, coefficient_k = 1, shift_q = 13, modulus_R = 8388608, is_valid = True\<rparr>)"
  using DecomposePrime_general [of 1023 10 13 8380417] by simp

lemma d8404993: "DecomposePrime 8404993 = Some (Inr \<lparr>exponent_p = 24, coefficient_k = 511, shift_q = 14, modulus_R = 16777216, is_valid = True\<rparr>)"
  using DecomposePrime_general [of 513 10 14 8404993] by simp

lemma d1073479681: "DecomposePrime 1073479681 = Some (Inr \<lparr>exponent_p = 30, coefficient_k = 1, shift_q = 18, modulus_R = 1073741824, is_valid = True\<rparr>)"
  using DecomposePrime_general [of 4095 12 18 1073479681] by simp

text \<open>
  Claim C6 fails in the code: \<open>R * R\<close> is computed in 32 bits, so for every decomposition
  with \<open>R \<ge> 2 ^ 16\<close> the function returns \<open>0\<close> instead of \<open>R\<^sup>2 div q\<close>. This is the case for
  four of the seven supported moduli; for \<open>3329\<close>, \<open>7681\<close> and \<open>12289\<close> the product fits and
  the result is \<open>R\<^sup>2 div q\<close>.
\<close>

theorem CalculateBarrettParameter_wraps:
  "DecomposePrime 3329 = Some (Inr \<lparr>exponent_p = 12, coefficient_k = 3, shift_q = 8,
      modulus_R = 4096, is_valid = True\<rparr>)
   \<and> CalculateBarrettParameter 3329 4096 = Inr 5039
   \<and> (4096 * 4096) div 3329 = (5039::nat)
   \<and> DecomposePrime 7681 = Some (Inr \<lparr>exponent_p = 13, coefficient_k = 1, shift_q = 9,
      modulus_R = 8192, is_valid = True\<rparr>)
   \<and> CalculateBarrettParameter 7681 8192 = Inr 8736
   \<and> (8192 * 8192) div 7681 = (8736::nat)
   \<and> DecomposePrime 12289 = Some (Inr \<lparr>exponent_p = 14, coefficient_k = 1, shift_q = 12,
      modulus_R = 16384, is_valid = True\<rparr>)
   \<and> CalculateBarrettParameter 12289 16384 = Inr 21843
   \<and> (16384 * 16384) div 12289 = (21843::nat)
   \<and> DecomposePrime 65537 = Some (Inr \<lparr>exponent_p = 16, coefficient_k = 0, shift_q = 1,
      modulus_R = 131072, is_valid = True\<rparr>)
   \<and> CalculateBarrettParameter 65537 131072 = Inr 0
   \<and> (131072 * 131072) div 65537 = (262140::nat)
   \<and> DecomposePrime 8380417 = Some (Inr \<lparr>exponent_p = 23, coefficient_k = 1, shift_q = 13,
      modulus_R = 8388608, is_valid = True\<rparr>)
   \<and> CalculateBarrettParameter 8380417 8388608 = Inr 0
   \<and> (8388608 * 8388608) div 8380417 = (8396807::nat)
   \<and> DecomposePrime 8404993 = Some (Inr \<lparr>exponent_p = 24, coefficient_k = 511, shift_q = 14,
      modulus_R = 16777216, is_valid = True\<rparr>)
   \<and> CalculateBarrettParameter 8404993 16777216 = Inr 0
   \<and> (16777216 * 16777216) div 8404993 = (33489019::nat)
   \<and> DecomposePrime 1073479681 = Some (Inr \<lparr>exponent_p = 30, coefficient_k = 1,
      shift_q = 18, modulus_R = 1073741824, is_valid = True\<rparr>)
   \<and> CalculateBarrettParameter 1073479681 1073741824 = Inr 0
   \<and> (1073741824 * 1073741824) div 1073479681 = (1074004031::nat)"
  by (simp add: d3329 d7681 d12289 d65537 d8380417 d8404993 d1073479681
      CalculateBarrettParameter_def u32_def)

lemma log2_floor_65537: "log2_floor 65537 = 16"
  by (simp add: log2_floor_def compute_floorlog)

lemma barrett_65537_65536_3: "BarrettReduce 65536 3 65537 0 = Some (Inr 65534)"
  by (simp add: BarrettReduce_def barrett_adjust.simps sub_u64_def u64_def u32_def
      log2_floor_65537)

section \<open>The Montgomery inverse search and MontgomeryMultiply\<close>

lemma inverse_scan_found:
  assumes "i \<le> c" "c < R" "u64 (c * q) mod R = sub_u32 R 1"
    and "\<And>j. i \<le> j \<Longrightarrow> j < c \<Longrightarrow> u64 (j * q) mod R \<noteq> sub_u32 R 1"
  shows "inverse_scan q R i = Inr c"
  using assms
proof (induction "c - i" arbitrary: i)
  case 0
  then have "i = c" by simp
  with 0 show ?case by (subst inverse_scan.simps) simp
next
  case (Suc n)
  then have lt: "i < c" by simp
  then have "u64 (i * q) mod R \<noteq> sub_u32 R 1" using Suc.prems(4) by simp
  moreover have "i < R" using lt Suc.prems(2) by simp
  ultimately have "inverse_scan q R i = inverse_scan q R (i + 1)"
    by (subst inverse_scan.simps) simp
  moreover have "inverse_scan q R (i + 1) = Inr c"
  proof (rule Suc.hyps(1))
    show "n = c - (i + 1)" using Suc.hyps(2) by simp
    show "i + 1 \<le> c" using lt by simp
    show "c < R" by (rule Suc.prems(2))
    show "u64 (c * q) mod R = sub_u32 R 1" by (rule Suc.prems(3))
    show "\<And>j. i + 1 \<le> j \<Longrightarrow> j < c \<Longrightarrow> u64 (j * q) mod R \<noteq> sub_u32 R 1"
      using Suc.prems(4) by simp
  qed
  ultimately show ?case by simp
qed

lemma inverse_unique:
  fixes q R c j :: nat
  assumes cop: "coprime R q" and jc: "j < c" "c < R"
    and eq: "(c * q) mod R = (j * q) mod R"
  shows False
proof -
  have "j * q \<le> c * q" using jc by simp
  with eq have "R dvd c * q - j * q" by (simp add: mod_eq_dvd_iff_nat)
  then have "R dvd (c - j) * q" by (simp add: diff_mult_distrib)
  with cop have "R dvd c - j" by (simp add: coprime_dvd_mult_left_iff)
  moreover have "0 < c - j" "c - j < R" using jc by simp_all
  ultimately show False by (auto dest: dvd_imp_le)
qed

lemma CalculateMontgomeryInverse_eq:
  fixes q R c n :: nat
  assumes q: "odd q" "q < 2 ^ 32" and R: "R = 2 ^ n" "0 < n" "n < 32"
    and c: "1 \<le> c" "c < R" "(c * q) mod R = R - 1"
  shows "CalculateMontgomeryInverse q R = Inr c"
proof -
  have R32: "R < 2 ^ 32" unfolding R(1) using R(3) by (intro power_strict_increasing) simp_all
  have R1: "1 \<le> R" by (simp add: R(1))
  have sub: "sub_u32 R 1 = R - 1" using R1 R32 by (rule sub_u32_eq)
  have cop: "coprime R q" using q(1) R(2) by (simp add: R(1))
  have small: "u64 (j * q) = j * q" if "j < R" for j
  proof -
    have "j * q \<le> R * q" using that by simp
    also have "\<dots> < 2 ^ 32 * 2 ^ 32" using R32 q(2) by (intro mult_strict_mono) simp_all
    finally show ?thesis by (intro u64_id) simp
  qed
  show ?thesis
    unfolding CalculateMontgomeryInverse_def
  proof (rule inverse_scan_found)
    show "1 \<le> c" "c < R" by (rule c)+
    show "u64 (c * q) mod R = sub_u32 R 1" by (simp only: small [OF c(2)] sub c(3))
    fix j
    assume j: "1 \<le> j" "j < c"
    then have jR: "j < R" using c(2) by simp
    show "u64 (j * q) mod R \<noteq> sub_u32 R 1"
    proof
      assume "u64 (j * q) mod R = sub_u32 R 1"
      then have "(c * q) mod R = (j * q) mod R" by (simp only: small [OF jR] sub c(3))
      with cop j(2) c(2) show False by (rule inverse_unique)
    qed
  qed
qed

lemma inverse_scan_even:
  assumes q: "even q" and R: "even R" "2 \<le> R" "R < 2 ^ 32"
  shows "inverse_scan q R i = Inl DomainError"
proof (induction "R - i" arbitrary: i)
  case 0
  then have "\<not> i < R" by simp
  then show ?case by (subst inverse_scan.simps) simp
next
  case (Suc n)
  then have lt: "i < R" by simp
  have "sub_u32 R 1 = R - 1" using R by (intro sub_u32_eq) simp_all
  then have "odd (sub_u32 R 1)" using R by simp
  moreover have "even (u64 (i * q) mod R)"
    unfolding u64_def using q R(1) by (intro dvd_mod) simp_all
  ultimately have "u64 (i * q) mod R \<noteq> sub_u32 R 1" by metis
  with lt have "inverse_scan q R i = inverse_scan q R (i + 1)"
    by (subst inverse_scan.simps) simp
  moreover have "n = R - (i + 1)" using Suc.hyps(2) by simp
  ultimately show ?case using Suc.hyps(1) by simp
qed

lemma MontgomeryMultiply_even:
  assumes q: "even q" "2 \<le> q" "q \<le> 2 ^ 31"
  shows "MontgomeryMultiply a b q = Some (Inl DomainError)"
proof -
  have "\<exists>params. DecomposePrime q = Some (Inr params) \<and> is_valid params
    \<and> even (modulus_R params) \<and> 2 \<le> modulus_R params \<and> modulus_R params < 2 ^ 32"
  proof (cases "q = 2")
    case True
    then show ?thesis by (simp add: DecomposePrime_def)
  next
    case False
    define s where "s = q - 1"
    have s: "odd s" "3 \<le> s" "q = s * 2 ^ 0 + 1" "s \<le> 2 ^ 31"
      using q False by (auto simp add: s_def)
    define c where "c = ceillog2 s"
    have c: "s \<le> 2 ^ c" "2 ^ c < 2 * s"
      using s(2) by (simp_all add: c_def le_two_power_ceillog2 two_power_ceillog2_gt)
    have "c \<le> 31" unfolding c_def using s(2,4) by (subst ceillog2_le_iff) simp_all
    then have c32: "0 + c < 32" by simp
    have "(2::nat) ^ c < 2 ^ 32" using c32 by (intro power_strict_increasing) simp_all
    moreover have "c \<noteq> 0" using c(1) s(2) by (cases c) simp_all
    then have "even ((2::nat) ^ c)" "2 \<le> (2::nat) ^ c" by (cases c; simp)+
    ultimately show ?thesis
      using DecomposePrime_general [OF s(1,2) c c32 s(3)] by simp
  qed
  then obtain params where p: "DecomposePrime q = Some (Inr params)" "is_valid params"
    "even (modulus_R params)" "2 \<le> modulus_R params" "modulus_R params < 2 ^ 32" by auto
  have "CalculateMontgomeryInverse q (modulus_R params) = Inl DomainError"
    unfolding CalculateMontgomeryInverse_def using q(1) p(3-5) by (rule inverse_scan_even)
  with p show ?thesis by (simp add: MontgomeryMultiply_def Let_def)
qed

lemma inv_65537: "CalculateMontgomeryInverse 65537 131072 = Inr 65535"
  by (rule CalculateMontgomeryInverse_eq [where n = 17]) simp_all

lemma mr1: "MontgomeryReduce 4294836225 65537 65535 16 = Inr 65533"
  by (simp add: MontgomeryReduce_def u32_def u64_def sub_u64_def Let_def)

lemma mr2: "MontgomeryReduce 65533 65537 65535 16 = Inr 4"
  by (simp add: MontgomeryReduce_def u32_def u64_def sub_u64_def Let_def)

lemma mont_65537_1_1: "MontgomeryMultiply 1 1 65537 = Some (Inr 4)"
proof -
  have am: "u32 (u64 131072 mod 65537) = 65535" by (simp add: u32_def u64_def)
  have pr: "u64 4294836225 = 4294836225" by (simp add: u64_def)
  show ?thesis
    unfolding MontgomeryMultiply_def d65537 Let_def
    by (simp add: inv_65537 am pr mr1 mr2)
qed

lemma MontgomeryReduce_Inr:
  "R_shift < 32 \<Longrightarrow> \<exists>r. MontgomeryReduce res_m q inv_q R_shift = Inr r"
  by (simp add: MontgomeryReduce_def Let_def)

lemma fermat_inverse:
  assumes m: "1 \<le> m" "m < 31"
  shows "CalculateMontgomeryInverse (2 ^ m + 1) (2 ^ (m + 1)) = Inr (2 ^ m - 1)"
proof (rule CalculateMontgomeryInverse_eq [where n = "m + 1"])
  obtain j where j: "m = Suc j" using m(1) by (cases m) simp_all
  show "odd ((2::nat) ^ m + 1)" using m(1) by simp
  have le: "(2::nat) ^ m \<le> 2 ^ 30" using m(2) by (intro power_increasing) simp_all
  then show "(2::nat) ^ m + 1 < 2 ^ 32" by simp
  show "(2::nat) ^ (m + 1) = 2 ^ (m + 1)" by simp
  show "0 < m + 1" by simp
  show "m + 1 < 32" using m(2) by simp
  have two: "(2::nat) \<le> 2 ^ m" using j by simp
  then show "1 \<le> (2::nat) ^ m - 1" by simp
  have "(2::nat) ^ m - 1 \<le> 2 ^ m" by simp
  also have "\<dots> < 2 ^ (m + 1)" by simp
  finally show "(2::nat) ^ m - 1 < 2 ^ (m + 1)" .
  define A :: nat where "A = 2 ^ m"
  define B :: nat where "B = 2 ^ j"
  have AB: "A = 2 * B" by (simp add: A_def B_def j)
  have B1: "1 \<le> B" by (simp add: B_def)
  have "(A - 1) * (A + 1) = (B - 1) * (2 * A) + (2 * A - 1)"
  proof -
    have "(A - 1) * (A + 1) + 1 = A * A" using two by (simp add: A_def algebra_simps)
    moreover have "(B - 1) * (2 * A) + (2 * A - 1) + 1 = A * A"
    proof -
      obtain B' where "B = Suc B'" using B1 by (cases B) simp_all
      then have "(B - 1) * (2 * A) + 2 * A = B * (2 * A)" by simp
      moreover have "1 \<le> 2 * A" using two by (simp add: A_def)
      ultimately show ?thesis by (simp add: AB)
    qed
    ultimately show ?thesis by simp
  qed
  then have "((A - 1) * (A + 1)) mod (2 * A) = (2 * A - 1) mod (2 * A)"
    by (simp only: mod_mult_self3)
  also have "\<dots> = 2 * A - 1" using two by (simp add: A_def)
  finally have fin: "((A - 1) * (A + 1)) mod (2 * A) = 2 * A - 1" .
  have R2: "(2::nat) ^ (m + 1) = 2 * A" by (simp add: A_def)
  show "((2::nat) ^ m - 1) * (2 ^ m + 1) mod 2 ^ (m + 1) = 2 ^ (m + 1) - 1"
    unfolding R2 A_def [symmetric] by (rule fin)
qed

lemma MontgomeryMultiply_Inr:
  assumes D: "DecomposePrime q = Some (Inr d)" and v: "is_valid d" "modulus_R d \<noteq> 0"
    and c: "CalculateMontgomeryInverse q (modulus_R d) = Inr c"
    and q0: "q \<noteq> 0" and sh: "nat (exponent_p d mod 2 ^ 32) < 32"
  shows "\<exists>r. MontgomeryMultiply a b q = Some (Inr r)"
proof -
  have sh': "nat (exponent_p d mod 4294967296) < 32" using sh by simp
  obtain r1 where r1: "MontgomeryReduce
      (u64 (u32 (u64 (a * modulus_R d) mod q) * u32 (u64 (b * modulus_R d) mod q)))
      q c (nat (exponent_p d mod 4294967296)) = Inr r1"
    using MontgomeryReduce_Inr [OF sh'] by blast
  obtain r2 where r2: "MontgomeryReduce r1 q c (nat (exponent_p d mod 4294967296)) = Inr r2"
    using MontgomeryReduce_Inr [OF sh'] by blast
  have "MontgomeryMultiply a b q = Some (Inr (r2 mod q))"
    unfolding MontgomeryMultiply_def D Let_def
    using v q0 by (simp add: c r1 r2)
  then show ?thesis by blast
qed

lemma MontgomeryMultiply_fermat:
  assumes m: "1 \<le> m" "m < 31"
  shows "\<exists>r. MontgomeryMultiply a b (2 ^ m + 1) = Some (Inr r)"
proof (rule MontgomeryMultiply_Inr)
  define d where "d = \<lparr>exponent_p = int m, coefficient_k = 0, shift_q = 1,
    modulus_R = 2 ^ (m + 1), is_valid = True\<rparr>"
  show "DecomposePrime (2 ^ m + 1) = Some (Inr d)"
    unfolding d_def by (rule DecomposePrime_fermat [OF m])
  show "is_valid d" "modulus_R d \<noteq> 0" by (simp_all add: d_def)
  have R: "modulus_R d = 2 ^ (m + 1)" by (simp add: d_def)
  show "CalculateMontgomeryInverse (2 ^ m + 1) (modulus_R d) = Inr (2 ^ m - 1)"
    unfolding R by (rule fermat_inverse [OF m])
  show "(2::nat) ^ m + 1 \<noteq> 0" by simp
  have "int m mod 2 ^ 32 = int (m mod 2 ^ 32)" by (simp add: zmod_int)
  moreover have "m mod 2 ^ 32 = m" using m(2) by simp
  ultimately have "nat (int m mod 2 ^ 32) = m" by (simp only: nat_int)
  moreover have "exponent_p d = int m" by (simp add: d_def)
  ultimately show "nat (exponent_p d mod 2 ^ 32) < 32" using m(2) by simp
qed

lemma mr3: "MontgomeryReduce 131062 65537 65535 16 = Inr 12"
  by (simp add: MontgomeryReduce_def u32_def u64_def sub_u64_def Let_def)

lemma mr4: "MontgomeryReduce 12 65537 65535 16 = Inr 65525"
  by (simp add: MontgomeryReduce_def u32_def u64_def sub_u64_def Let_def)

lemma mont_65537_65536_3: "MontgomeryMultiply 65536 3 65537 = Some (Inr 65525)"
proof -
  have am: "u32 (u64 8589934592 mod 65537) = 2" by (simp add: u32_def u64_def)
  have bm: "u32 (u64 393216 mod 65537) = 65531" by (simp add: u32_def u64_def)
  have pr: "u64 131062 = 131062" by (simp add: u64_def)
  show ?thesis
    unfolding MontgomeryMultiply_def d65537 Let_def
    by (simp add: inv_65537 am bm pr mr3 mr4)
qed

text \<open>
  Claim C7, as stated, fails: the decomposition of \<open>65537\<close> has \<open>2 ^ exponent_p = 65536\<close>,
  below the modulus, and the call is not rejected but returns a value.
\<close>

theorem MontgomeryMultiply_65537_not_rejected_counterexample:
  "DecomposePrime 65537 = Some (Inr fermat_params)
   \<and> \<not> (65537::nat) < 2 ^ nat (exponent_p fermat_params)
   \<and> MontgomeryMultiply 1 1 65537 = Some (Inr 4)"
proof (intro conjI)
  show "DecomposePrime 65537 = Some (Inr fermat_params)" by (rule d65537_params)
  show "\<not> (65537::nat) < 2 ^ nat (exponent_p fermat_params)"
    by (simp add: fermat_params_def)
  show "MontgomeryMultiply 1 1 65537 = Some (Inr 4)" by (rule mont_65537_1_1)
qed

text \<open>
  Claim C7, amended. \<open>MontgomeryMultiply\<close> does not check \<open>2 ^ exponent_p > q\<close>. For every
  even modulus \<open>q\<close> with \<open>2 \<le> q \<le> 2 ^ 31\<close> the call is rejected for all operands, by the
  inverse search, which raises \<open>std::domain_error\<close>. For every modulus \<open>q = 2 ^ m + 1\<close> with
  \<open>1 \<le> m \<le> 30\<close>, whose decomposition has \<open>2 ^ exponent_p < q\<close>, the call is not rejected: it
  returns a value.
\<close>

theorem MontgomeryMultiply_rejection:
  "(even q \<and> 2 \<le> q \<and> q \<le> 2 ^ 31 \<longrightarrow>
      MontgomeryMultiply a b q = Some (Inl DomainError))
   \<and> (1 \<le> m \<and> m < 31 \<longrightarrow>
      (\<exists>d r. DecomposePrime (2 ^ m + 1) = Some (Inr d)
         \<and> (2::nat) ^ nat (exponent_p d) < 2 ^ m + 1
         \<and> MontgomeryMultiply a b (2 ^ m + 1) = Some (Inr r)))"
proof (intro conjI impI)
  assume "even q \<and> 2 \<le> q \<and> q \<le> 2 ^ 31"
  then show "MontgomeryMultiply a b q = Some (Inl DomainError)"
    by (simp add: MontgomeryMultiply_even)
next
  assume m: "1 \<le> m \<and> m < 31"
  then obtain r where "MontgomeryMultiply a b (2 ^ m + 1) = Some (Inr r)"
    using MontgomeryMultiply_fermat [of m a b] by auto
  moreover have "DecomposePrime (2 ^ m + 1) =
    Some (Inr \<lparr>exponent_p = int m, coefficient_k = 0, shift_q = 1,
               modulus_R = 2 ^ (m + 1), is_valid = True\<rparr>)"
    using m by (intro DecomposePrime_fermat) simp_all
  ultimately show "\<exists>d r. DecomposePrime (2 ^ m + 1) = Some (Inr d)
         \<and> (2::nat) ^ nat (exponent_p d) < 2 ^ m + 1
         \<and> MontgomeryMultiply a b (2 ^ m + 1) = Some (Inr r)"
    by simp
qed

theorem MontgomeryMultiply_rejection_witness:
  "even (6::nat) \<and> (2::nat) \<le> 6 \<and> (6::nat) \<le> 2 ^ 31
   \<and> MontgomeryMultiply 5 4 6 = Some (Inl DomainError)
   \<and> (1::nat) \<le> 2 \<and> (2::nat) < 31
   \<and> (\<exists>d r. DecomposePrime 5 = Some (Inr d)
         \<and> (2::nat) ^ nat (exponent_p d) < 5
         \<and> MontgomeryMultiply 3 4 5 = Some (Inr r))"
  using MontgomeryMultiply_rejection [of 6 5 4 2] MontgomeryMultiply_rejection [of 6 3 4 2]
  by simp

section \<open>The three reducers at one input\<close>

text \<open>
  Claim C1 fails in the code at \<open>Q = 65537\<close>, \<open>a = 65536\<close>, \<open>b = 3\<close>: the golden value is
  \<open>65534\<close>; \<open>GeneralizedMersenneReduce\<close> returns \<open>65535\<close> and \<open>MontgomeryMultiply\<close> returns
  \<open>65525\<close>. \<open>BarrettReduce\<close>, called with the parameter \<open>0\<close> that
  \<open>CalculateBarrettParameter\<close> yields, returns \<open>65534\<close>.
\<close>

theorem reducers_disagree_at_65537:
  "GeneralizedMersenneReduce 65536 3 65537 = Some (Inr 65535)
   \<and> MontgomeryMultiply 65536 3 65537 = Some (Inr 65525)
   \<and> DecomposePrime 65537 = Some (Inr fermat_params) \<and> modulus_R fermat_params = 131072
   \<and> CalculateBarrettParameter 65537 131072 = Inr 0
   \<and> BarrettReduce 65536 3 65537 0 = Some (Inr 65534)
   \<and> (65536 * 3) mod 65537 = (65534::nat)"
  by (simp add: gm_65537_65536_3 mont_65537_65536_3 d65537_params barrett_65537_65536_3
      CalculateBarrettParameter_def u32_def fermat_params_def)

theorem reducers_disagree_at_65537_witness:
  "GeneralizedMersenneReduce 65536 3 65537 \<noteq> Some (Inr ((65536 * 3) mod 65537))
   \<and> MontgomeryMultiply 65536 3 65537 \<noteq> Some (Inr ((65536 * 3) mod 65537))
   \<and> BarrettReduce 65536 3 65537 0 = Some (Inr ((65536 * 3) mod 65537))"
  using reducers_disagree_at_65537 by simp

end
